theory Spec2Isabelle
  imports Complex_Main "HOL-Library.Log_Nat"
begin

section \<open>The MPI midpoint-rule program for pi\<close>

text \<open>
  The development embeds \<^verbatim>\<open>main\<close> of \<^verbatim>\<open>MPI_example_code_in_C.c\<close>. Every process of
  the MPI job runs the same text on its own copy of the local variables; the processes
  meet at the two collectives \<^verbatim>\<open>MPI_Bcast\<close> and \<^verbatim>\<open>MPI_Reduce\<close>. The model keeps one
  record of local variables per rank, runs the per-rank code between two collectives on
  every record, and implements the collectives on the list of records (index = rank).
\<close>

subsection \<open>C integers\<close>

text \<open>
  \<^verbatim>\<open>int\<close> is the 32-bit two's complement type. Signed overflow is undefined behaviour in
  C; the model reports it as the error \<open>SignedOverflow\<close> instead of picking a result.
\<close>

definition INT_MAX :: int where
  "INT_MAX = 2147483647"

definition INT_MIN :: int where
  "INT_MIN = - 2147483648"

datatype error =
    SignedOverflow      \<comment> \<open>an \<^verbatim>\<open>int\<close> addition left the range of \<^verbatim>\<open>int\<close>\<close>
  | DivisionByZero      \<comment> \<open>a floating-point division had the divisor zero\<close>
  | NonTermination      \<comment> \<open>the \<^verbatim>\<open>for\<close> loop does not return\<close>
  | CollectiveMismatch  \<comment> \<open>some ranks left the round loop while others stayed\<close>

definition add_int :: "int \<Rightarrow> int \<Rightarrow> error + int" where
  "add_int a b =
     (if a + b < INT_MIN \<or> INT_MAX < a + b then Inl SignedOverflow else Inr (a + b))"

subsection \<open>C doubles\<close>

text \<open>
  A finite \<^verbatim>\<open>double\<close> is denoted by the rational number it represents. Every arithmetic
  operation of the program computes the exact result and rounds it once; the rounding
  function is a parameter \<open>rnd\<close> of the model. Two roundings are defined: \<open>exact\<close>
  (no rounding, the arithmetic of the rationals) and \<open>binary64\<close> (IEEE 754
  round-to-nearest, ties to even, with a 53-bit significand). \<open>binary64\<close> has no
  exponent bound: the magnitudes the program computes from a 32-bit \<^verbatim>\<open>n\<close> lie between
  \<open>2 powi - 64\<close> and \<open>2 powi 34\<close>, far inside the normal range. A division by zero
  would leave the finite values, so it is an error of the model.
\<close>

type_synonym double = rat

type_synonym rounding = "rat \<Rightarrow> rat"

definition exact :: rounding where
  "exact q = q"

definition rint :: "rat \<Rightarrow> int" where
  "rint q =
     (let f = \<lfloor>q\<rfloor>; r = q - of_int f
      in if r < 1 / 2 then f else if 1 / 2 < r then f + 1 else if even f then f else f + 1)"

definition ilog2 :: "rat \<Rightarrow> int" where
  "ilog2 q =
     (let (a, b) = quotient_of q; k = bitlen a - bitlen b
      in if 2 powi k \<le> q then k else k - 1)"

definition binary64 :: rounding where
  "binary64 q =
     (if q = 0 then 0
      else let e = ilog2 \<bar>q\<bar>
           in sgn q * of_int (rint (\<bar>q\<bar> * 2 powi (52 - e))) * 2 powi (e - 52))"

definition dadd :: "rounding \<Rightarrow> double \<Rightarrow> double \<Rightarrow> double" where
  "dadd rnd a b = rnd (a + b)"

definition dsub :: "rounding \<Rightarrow> double \<Rightarrow> double \<Rightarrow> double" where
  "dsub rnd a b = rnd (a - b)"

definition dmul :: "rounding \<Rightarrow> double \<Rightarrow> double \<Rightarrow> double" where
  "dmul rnd a b = rnd (a * b)"

definition ddiv :: "rounding \<Rightarrow> double \<Rightarrow> double \<Rightarrow> error + double" where
  "ddiv rnd a b = (if b = 0 then Inl DivisionByZero else Inr (rnd (a / b)))"

definition int_to_double :: "rounding \<Rightarrow> int \<Rightarrow> double" where
  "int_to_double rnd k = rnd (of_int k)"

definition fabs :: "double \<Rightarrow> double" where
  "fabs a = \<bar>a\<bar>"

definition M_PI :: double where
  "M_PI = 884279719003555 / 281474976710656"

subsection \<open>The local variables of one process\<close>

text \<open>
  The fields are the variables declared at the top of \<^verbatim>\<open>main\<close>, prefixed with \<open>v_\<close>,
  and \<open>mpi_live\<close>, the state of the MPI library in the process: true between
  \<^verbatim>\<open>MPI_Init\<close> and \<^verbatim>\<open>MPI_Finalize\<close>.
\<close>

record vars =
  v_done :: int
  v_n :: int
  v_myid :: int
  v_numprocs :: int
  v_i :: int
  v_mypi :: double
  v_pi :: double
  v_h :: double
  v_sum :: double
  v_x :: double
  v_t0 :: double
  v_t1 :: double
  mpi_live :: bool

type_synonym group = "vars list"

subsection \<open>The strided loop\<close>

text \<open>
  \<^verbatim>\<open>for (i = i0; i <= n; i += numprocs) body\<close>, for any loop body acting on a state \<open>'s\<close>.
  The loop returns the value of \<^verbatim>\<open>i\<close> that failed the test together with the state. It
  is defined as a partial function: with \<^verbatim>\<open>numprocs = 0\<close> the C loop never returns,
  and then the value is \<open>None\<close>.
\<close>

partial_function (option) for_loop ::
  "(int \<Rightarrow> 's \<Rightarrow> error + 's) \<Rightarrow> int \<Rightarrow> int \<Rightarrow> int \<Rightarrow> 's \<Rightarrow> (error + int \<times> 's) option" where
  "for_loop body i n numprocs s =
     (if i \<le> n then
        (case body i s of
           Inl e \<Rightarrow> Some (Inl e)
         | Inr s' \<Rightarrow>
             (case add_int i numprocs of
                Inl e \<Rightarrow> Some (Inl e)
              | Inr i' \<Rightarrow> for_loop body i' n numprocs s'))
      else Some (Inr (i, s)))"

declare for_loop.simps [code]

text \<open>
  The sample indices a rank owns are the values of \<^verbatim>\<open>i\<close> at which the loop of line 26
  runs its body, in the order of the visits.
\<close>

definition owned :: "int \<Rightarrow> int \<Rightarrow> int \<Rightarrow> (error + int list) option" where
  "owned n myid numprocs =
     (case add_int myid 1 of
        Inl e \<Rightarrow> Some (Inl e)
      | Inr i0 \<Rightarrow>
          map_option (map_sum id snd)
            (for_loop (\<lambda>i xs. Inr (xs @ [i])) i0 n numprocs []))"

definition owned_indices :: "int \<Rightarrow> int \<Rightarrow> int \<Rightarrow> int list" where
  "owned_indices n myid numprocs =
     (case owned n myid numprocs of Some (Inr xs) \<Rightarrow> xs | _ \<Rightarrow> [])"

subsection \<open>The integration step of one rank (lines 24 to 30)\<close>

definition kernel_step :: "rounding \<Rightarrow> int \<Rightarrow> vars \<Rightarrow> error + vars" where
  "kernel_step rnd i st =
     (let x' = dmul rnd (v_h st) (dsub rnd (int_to_double rnd i) (1 / 2))
      in case ddiv rnd 4 (dadd rnd 1 (dmul rnd x' x')) of
           Inl e \<Rightarrow> Inl e
         | Inr t \<Rightarrow> Inr (st\<lparr>v_x := x', v_sum := dadd rnd (v_sum st) t\<rparr>))"

definition integrate :: "rounding \<Rightarrow> vars \<Rightarrow> error + vars" where
  "integrate rnd st =
     (case ddiv rnd 1 (int_to_double rnd (v_n st)) of
        Inl e \<Rightarrow> Inl e
      | Inr hv \<Rightarrow>
          (let st1 = st\<lparr>v_h := hv, v_sum := 0\<rparr>
           in case add_int (v_myid st1) 1 of
                Inl e \<Rightarrow> Inl e
              | Inr i0 \<Rightarrow>
                  (case for_loop (kernel_step rnd) i0 (v_n st1) (v_numprocs st1) st1 of
                     None \<Rightarrow> Inl NonTermination
                   | Some (Inl e) \<Rightarrow> Inl e
                   | Some (Inr (iend, st2)) \<Rightarrow>
                       Inr (st2\<lparr>v_i := iend, v_mypi := dmul rnd (v_h st2) (v_sum st2)\<rparr>))))"

subsection \<open>The collectives and the round loop\<close>

text \<open>
  One round of \<^verbatim>\<open>while (!done)\<close> takes from the environment the integer that
  \<^verbatim>\<open>scanf\<close> stores at the coordinator, for every rank the two readings of
  \<^verbatim>\<open>MPI_Wtime\<close>, and the schedule of the reduction.
\<close>

type_synonym clock = "nat \<Rightarrow> double \<times> double"

datatype report = Report (elapsed: double) (approximation: double) (abs_error: double)

definition scan :: "int \<Rightarrow> vars \<Rightarrow> vars" where
  "scan v st = (if v_myid st = 0 then st\<lparr>v_n := v\<rparr> else st)"

definition MPI_Bcast :: "group \<Rightarrow> group" where
  "MPI_Bcast g = (case g of [] \<Rightarrow> [] | c # _ \<Rightarrow> map (\<lambda>st. st\<lparr>v_n := v_n c\<rparr>) g)"

definition start_timer :: "clock \<Rightarrow> group \<Rightarrow> group" where
  "start_timer clk g = map (\<lambda>(r, st). st\<lparr>v_t0 := fst (clk r)\<rparr>) (enumerate 0 g)"

fun integrate_all :: "rounding \<Rightarrow> group \<Rightarrow> error + group" where
  "integrate_all rnd [] = Inr []"
| "integrate_all rnd (st # g) =
     (case integrate rnd st of
        Inl e \<Rightarrow> Inl e
      | Inr st' \<Rightarrow> (case integrate_all rnd g of Inl e \<Rightarrow> Inl e | Inr g' \<Rightarrow> Inr (st' # g')))"

text \<open>
  \<^verbatim>\<open>MPI_Reduce\<close> with \<^verbatim>\<open>MPI_SUM\<close> and root 0 stores the sum of all \<^verbatim>\<open>mypi\<close> in \<^verbatim>\<open>pi\<close>
  of rank 0 and leaves \<^verbatim>\<open>pi\<close> of the other ranks alone. The call of line 32 leaves to
  the MPI library which partial results are added first, and on doubles the order
  matters. A \<open>schedule\<close> is one such order: a binary tree of additions whose leaves are
  ranks. The library chooses a schedule in every round, so the schedule is an input of
  the round, like the number read and the clock. \<open>schedule_of p sch\<close> says that \<open>sch\<close>
  adds the partial result of every rank of a group of \<open>p\<close> processes exactly once; a
  rank outside the group has no partial result and adds 0.
\<close>

datatype schedule = Rank nat | Combine schedule schedule

fun reduce_sum :: "rounding \<Rightarrow> schedule \<Rightarrow> double list \<Rightarrow> double" where
  "reduce_sum rnd (Rank r) ps = (if r < length ps then ps ! r else 0)"
| "reduce_sum rnd (Combine a b) ps = dadd rnd (reduce_sum rnd a ps) (reduce_sum rnd b ps)"

fun ranks_of :: "schedule \<Rightarrow> nat list" where
  "ranks_of (Rank r) = [r]"
| "ranks_of (Combine a b) = ranks_of a @ ranks_of b"

definition schedule_of :: "nat \<Rightarrow> schedule \<Rightarrow> bool" where
  "schedule_of p sch \<longleftrightarrow> distinct (ranks_of sch) \<and> set (ranks_of sch) = {0..<p}"

definition MPI_Reduce :: "rounding \<Rightarrow> schedule \<Rightarrow> group \<Rightarrow> group" where
  "MPI_Reduce rnd sch g =
     (case g of [] \<Rightarrow> [] | c # rest \<Rightarrow> c\<lparr>v_pi := reduce_sum rnd sch (map v_mypi g)\<rparr> # rest)"

definition stop_timer :: "clock \<Rightarrow> group \<Rightarrow> group" where
  "stop_timer clk g = map (\<lambda>(r, st). st\<lparr>v_t1 := snd (clk r)\<rparr>) (enumerate 0 g)"

definition print_report :: "rounding \<Rightarrow> vars \<Rightarrow> report list" where
  "print_report rnd st =
     (if v_myid st = 0
      then [Report (dsub rnd (v_t1 st) (v_t0 st)) (v_pi st) (fabs (dsub rnd (v_pi st) M_PI))]
      else [])"

text \<open>
  \<open>one_round\<close> is one pass through the body of the \<^verbatim>\<open>while\<close> loop (lines 14 to 39)
  on the whole group. The Boolean of the result says whether the ranks left the loop at
  line 20; each rank tests its own \<^verbatim>\<open>n\<close> there. The reports are the lines the round
  prints.
\<close>

definition one_round ::
  "rounding \<Rightarrow> int \<Rightarrow> clock \<Rightarrow> schedule \<Rightarrow> group \<Rightarrow> error + bool \<times> group \<times> report list"
  where
  "one_round rnd v clk sch g =
     (let g1 = MPI_Bcast (map (scan v) g)
      in if \<forall>st \<in> set g1. v_n st = 0 then Inr (True, g1, [])
         else if \<exists>st \<in> set g1. v_n st = 0 then Inl CollectiveMismatch
         else (case integrate_all rnd (start_timer clk g1) of
                 Inl e \<Rightarrow> Inl e
               | Inr g2 \<Rightarrow>
                   (let g3 = stop_timer clk (MPI_Reduce rnd sch g2)
                    in Inr (False, g3, concat (map (print_report rnd) g3)))))"

text \<open>
  \<open>loop_test\<close> is the test \<^verbatim>\<open>!done\<close> of line 13, which every rank makes on its own
  \<^verbatim>\<open>done\<close>: the result is whether the ranks enter the body.
\<close>

definition loop_test :: "group \<Rightarrow> error + bool" where
  "loop_test g =
     (if \<forall>st \<in> set g. v_done st = 0 then Inr True
      else if \<forall>st \<in> set g. v_done st \<noteq> 0 then Inr False
      else Inl CollectiveMismatch)"

text \<open>
  \<open>rounds\<close> is the \<^verbatim>\<open>while\<close> loop, fed with the inputs of the rounds played so far.
  When the inputs run out before the loop is left, the coordinator is waiting at the
  prompt of line 15. The Boolean of the result says whether the loop has been left.
\<close>

fun rounds ::
  "rounding \<Rightarrow> group \<Rightarrow> (int \<times> clock \<times> schedule) list \<Rightarrow> report list \<Rightarrow>
     error + bool \<times> group \<times> report list"
  where
  "rounds rnd g [] out =
     (case loop_test g of
        Inl e \<Rightarrow> Inl e
      | Inr False \<Rightarrow> Inr (True, g, out)
      | Inr True \<Rightarrow> Inr (False, g, out))"
| "rounds rnd g ((v, clk, sch) # ins) out =
     (case loop_test g of
        Inl e \<Rightarrow> Inl e
      | Inr False \<Rightarrow> Inr (True, g, out)
      | Inr True \<Rightarrow>
          (case one_round rnd v clk sch g of
             Inl e \<Rightarrow> Inl e
           | Inr (True, g', new) \<Rightarrow> Inr (True, g', out @ new)
           | Inr (False, g', new) \<Rightarrow> rounds rnd g' ins (out @ new)))"

subsection \<open>The whole program\<close>

text \<open>
  \<^verbatim>\<open>MPI_Init\<close>, \<^verbatim>\<open>MPI_Comm_size\<close> and \<^verbatim>\<open>MPI_Comm_rank\<close> start \<open>p\<close> processes; \<open>junk r\<close>
  holds the indeterminate initial values of the uninitialised variables of rank \<open>r\<close>.
\<close>

definition startup :: "nat \<Rightarrow> (nat \<Rightarrow> vars) \<Rightarrow> group" where
  "startup p junk =
     map (\<lambda>r. (junk r)\<lparr>v_done := 0, v_myid := int r, v_numprocs := int p, mpi_live := True\<rparr>)
       [0..<p]"

definition MPI_Finalize :: "group \<Rightarrow> group" where
  "MPI_Finalize g = map (\<lambda>st. st\<lparr>mpi_live := False\<rparr>) g"

datatype outcome =
    AwaitingInput group "report list"
  | Exited "int list" group "report list"

definition main ::
  "rounding \<Rightarrow> nat \<Rightarrow> (nat \<Rightarrow> vars) \<Rightarrow> (int \<times> clock \<times> schedule) list \<Rightarrow> error + outcome"
  where
  "main rnd p junk ins =
     (case rounds rnd (startup p junk) ins [] of
        Inl e \<Rightarrow> Inl e
      | Inr (False, g, out) \<Rightarrow> Inr (AwaitingInput g out)
      | Inr (True, g, out) \<Rightarrow> Inr (Exited (map (\<lambda>st. 0) g) (MPI_Finalize g) out))"

subsection \<open>Auxiliary functions for the statements\<close>

text \<open>
  \<open>strided i n p\<close> is the arithmetic progression \<open>i, i + p, i + 2 * p, ...\<close> cut at
  \<open>n\<close>; \<open>fold_err\<close> runs a fallible loop body over a list and stops at the first error.
\<close>

function strided :: "int \<Rightarrow> int \<Rightarrow> int \<Rightarrow> int list" where
  "strided i n p = (if i \<le> n \<and> 0 < p then i # strided (i + p) n p else [])"
  by pat_completeness auto
termination
  by (relation "measure (\<lambda>(i, n, p). nat (n + 1 - i))") auto

declare strided.simps [simp del]

fun fold_err :: "('a \<Rightarrow> 's \<Rightarrow> error + 's) \<Rightarrow> 'a list \<Rightarrow> 's \<Rightarrow> error + 's" where
  "fold_err body [] s = Inr s"
| "fold_err body (x # xs) s =
     (case body x s of Inl e \<Rightarrow> Inl e | Inr s' \<Rightarrow> fold_err body xs s')"


text \<open>
  The properties of a rounding that the proofs use: zero is rounded to zero and the sign
  of a number survives rounding.
\<close>

definition sign_preserving :: "rounding \<Rightarrow> bool" where
  "sign_preserving rnd \<longleftrightarrow>
     rnd 0 = 0 \<and> (\<forall>q. 0 < q \<longrightarrow> 0 < rnd q) \<and> (\<forall>q. q < 0 \<longrightarrow> rnd q < 0)"

text \<open>
  A group as lines 7 to 12 set it up: at least one process, the process at index \<open>r\<close>
  has rank \<open>r\<close>, every process knows the size of the group, and \<^verbatim>\<open>done\<close> is 0.
\<close>

definition wf_group :: "group \<Rightarrow> bool" where
  "wf_group g \<longleftrightarrow>
     g \<noteq> [] \<and>
     (\<forall>r < length g.
        v_myid (g ! r) = int r \<and> v_numprocs (g ! r) = int (length g) \<and> v_done (g ! r) = 0)"

text \<open>
  The values of lines 24, 27 and 28 as expressions: the step width \<open>h\<close>, the midpoint
  \<open>x\<close> of sample \<open>i\<close> and the kernel \<open>4 / (1 + x * x)\<close>. \<open>scaled_once\<close> adds the
  kernel values over the progression of a rank and multiplies the sum by \<open>h\<close>.
\<close>

definition step_width :: "rounding \<Rightarrow> int \<Rightarrow> double" where
  "step_width rnd n = rnd (1 / int_to_double rnd n)"

definition midpoint :: "rounding \<Rightarrow> double \<Rightarrow> int \<Rightarrow> double" where
  "midpoint rnd h i = dmul rnd h (dsub rnd (int_to_double rnd i) (1 / 2))"

definition kernel_at :: "rounding \<Rightarrow> double \<Rightarrow> double" where
  "kernel_at rnd x = rnd (4 / dadd rnd 1 (dmul rnd x x))"

definition kernel_sum :: "rounding \<Rightarrow> double \<Rightarrow> double \<Rightarrow> int list \<Rightarrow> double" where
  "kernel_sum rnd h acc xs = foldl (\<lambda>s i. dadd rnd s (kernel_at rnd (midpoint rnd h i))) acc xs"

definition scaled_once :: "rounding \<Rightarrow> int \<Rightarrow> int \<Rightarrow> int \<Rightarrow> double" where
  "scaled_once rnd n r p =
     dmul rnd (step_width rnd n) (kernel_sum rnd (step_width rnd n) 0 (strided (r + 1) n p))"

text \<open>
  \<open>partialSum\<close> follows the words of the specification, section 4.3: for each owned index
  the worker computes the midpoint sample, evaluates the kernel and accumulates
  \<open>h * f(x)\<close> into its partial sum.
\<close>

definition partialSum :: "rounding \<Rightarrow> int \<Rightarrow> int \<Rightarrow> int \<Rightarrow> double" where
  "partialSum rnd n rank groupSize =
     (let h = step_width rnd n
      in foldl (\<lambda>acc i. dadd rnd acc (dmul rnd h (kernel_at rnd (midpoint rnd h i)))) 0
           (strided (rank + 1) n groupSize))"

text \<open>
  The accuracy of a rounding. One rounding to nearest in binary64 moves a positive value
  by a factor of at most \<open>1 + 2 powi - 53\<close>; \<open>ulp_factor\<close> is the slightly larger
  \<open>1 + 2 powi - 52\<close>. A rounding is \<open>accurate\<close> when it keeps zero and moves every
  positive value by at most this factor, up or down. \<open>near k a b\<close> says that the
  values \<open>a\<close> and \<open>b\<close>, neither negative, are within \<open>k\<close> such factors of each other.
\<close>

definition ulp_factor :: rat where
  "ulp_factor = 1 + 1 / 2 ^ 52"

definition accurate :: "rounding \<Rightarrow> bool" where
  "accurate rnd \<longleftrightarrow>
     rnd 0 = 0 \<and> (\<forall>q. 0 < q \<longrightarrow> q \<le> rnd q * ulp_factor \<and> rnd q \<le> q * ulp_factor)"

definition near :: "nat \<Rightarrow> rat \<Rightarrow> rat \<Rightarrow> bool" where
  "near k a b \<longleftrightarrow> 0 \<le> b \<and> b \<le> a * ulp_factor ^ k \<and> a \<le> b * ulp_factor ^ k"

text \<open>A process image with every variable zero, the initial memory of the examples.\<close>

definition blank :: vars where
  "blank =
     \<lparr>v_done = 0, v_n = 0, v_myid = 0, v_numprocs = 0, v_i = 0, v_mypi = 0, v_pi = 0, v_h = 0,
      v_sum = 0, v_x = 0, v_t0 = 0, v_t1 = 0, mpi_live = False\<rparr>"

section \<open>The strided loop visits an arithmetic progression\<close>

lemma strided_lower: "j \<in> set (strided i n p) \<Longrightarrow> i \<le> j"
proof (induction i n p rule: strided.induct)
  case (1 i n p)
  show ?case
  proof (cases "i \<le> n \<and> 0 < p")
    case True
    with "1.prems" have "j = i \<or> j \<in> set (strided (i + p) n p)"
      by (subst (asm) strided.simps) simp
    with "1.IH" True show ?thesis by force
  next
    case False
    with "1.prems" show ?thesis by (subst (asm) strided.simps) simp
  qed
qed

lemma strided_Cons: "i \<le> n \<Longrightarrow> 0 < p \<Longrightarrow> strided i n p = i # strided (i + p) n p"
  by (subst strided.simps) simp

lemma strided_Nil: "\<not> (i \<le> n \<and> 0 < p) \<Longrightarrow> strided i n p = []"
  by (subst strided.simps) simp

lemma distinct_strided: "distinct (strided i n p)"
proof (induction i n p rule: strided.induct)
  case (1 i n p)
  show ?case
  proof (cases "i \<le> n \<and> 0 < p")
    case True
    have "i \<notin> set (strided (i + p) n p)"
      using strided_lower [of i "i + p" n p] True by auto
    moreover have "distinct (strided (i + p) n p)"
      using "1.IH" True by simp
    ultimately show ?thesis
      using True by (simp add: strided_Cons)
  next
    case False
    then show ?thesis by (simp add: strided_Nil)
  qed
qed

lemma set_strided:
  "0 < p \<Longrightarrow> set (strided i n p) = {j. i \<le> j \<and> j \<le> n \<and> (j - i) mod p = 0}"
proof (induction i n p rule: strided.induct)
  case (1 i n p)
  show ?case
  proof (cases "i \<le> n")
    case True
    have step: "set (strided i n p) = insert i (set (strided (i + p) n p))"
      using True "1.prems" by (subst strided.simps) simp
    have IH: "set (strided (i + p) n p) = {j. i + p \<le> j \<and> j \<le> n \<and> (j - (i + p)) mod p = 0}"
      using "1.IH" True "1.prems" by simp
    have "insert i {j. i + p \<le> j \<and> j \<le> n \<and> (j - (i + p)) mod p = 0}
            = {j. i \<le> j \<and> j \<le> n \<and> (j - i) mod p = 0}" (is "?L = ?R")
    proof (rule set_eqI)
      fix j
      have shift: "(j - (i + p)) mod p = (j - i) mod p"
        by (metis diff_diff_eq minus_mod_self2)
      show "j \<in> ?L \<longleftrightarrow> j \<in> ?R"
      proof (cases "j = i")
        case True
        with \<open>i \<le> n\<close> show ?thesis by simp
      next
        case False
        show ?thesis
        proof (cases "j < i + p")
          case True
          have "i \<le> j \<Longrightarrow> (j - i) mod p = j - i"
            using True by (simp add: mod_pos_pos_trivial)
          with True False show ?thesis by auto
        next
          case False
          with shift "1.prems" show ?thesis by auto
        qed
      qed
    qed
    with step IH show ?thesis by simp
  next
    case False
    then have "strided i n p = []" by (subst strided.simps) simp
    with False show ?thesis by auto
  qed
qed

lemma for_loop_strided:
  assumes "0 < p" "INT_MIN \<le> i" "n + p \<le> INT_MAX"
  shows "for_loop body i n p s =
           Some (case fold_err body (strided i n p) s of
                   Inl e \<Rightarrow> Inl e
                 | Inr s' \<Rightarrow> Inr (i + int (length (strided i n p)) * p, s'))"
  using assms
proof (induction i n p arbitrary: s rule: strided.induct)
  case (1 i n p)
  show ?case
  proof (cases "i \<le> n")
    case True
    have unf: "strided i n p = i # strided (i + p) n p"
      using True "1.prems" by (subst strided.simps) simp
    have add: "add_int i p = Inr (i + p)"
      using True "1.prems" by (simp add: add_int_def)
    show ?thesis
    proof (cases "body i s")
      case (Inl e)
      then show ?thesis using True unf by (subst for_loop.simps) simp
    next
      case (Inr s')
      have "for_loop body (i + p) n p s' =
              Some (case fold_err body (strided (i + p) n p) s' of
                      Inl e \<Rightarrow> Inl e
                    | Inr s'' \<Rightarrow> Inr (i + p + int (length (strided (i + p) n p)) * p, s''))"
        using "1.IH" [of s'] True "1.prems" by simp
      then show ?thesis
        using True unf add Inr
        by (subst for_loop.simps) (simp add: algebra_simps split: sum.splits)
    qed
  next
    case False
    then have "strided i n p = []" by (subst strided.simps) simp
    with False show ?thesis by (subst for_loop.simps) simp
  qed
qed

lemma fold_err_snoc: "fold_err (\<lambda>i xs. Inr (xs @ [i])) ys acc = Inr (acc @ ys)"
  by (induction ys arbitrary: acc) auto

lemma owned_strided:
  assumes "0 < p" "0 \<le> r" "r < p" "0 \<le> n" "n + p \<le> INT_MAX"
  shows "owned n r p = Some (Inr (strided (r + 1) n p))"
proof -
  have "r + 1 \<le> INT_MAX" "INT_MIN \<le> r + 1" using assms by (auto simp: INT_MAX_def INT_MIN_def)
  then have a: "add_int r 1 = Inr (r + 1)" by (simp add: add_int_def)
  show ?thesis
    using for_loop_strided [OF assms(1) \<open>INT_MIN \<le> r + 1\<close> assms(5), of "\<lambda>i xs. Inr (xs @ [i])" "[]"]
    by (simp add: owned_def a fold_err_snoc)
qed


lemma for_loop_overflow:
  assumes "0 < p" "i \<le> n" "n \<le> INT_MAX" "INT_MAX < n + p" "(n - i) mod p = 0" "INT_MIN \<le> i"
    and total: "\<And>j s. \<exists>s'. body j s = Inr s'"
  shows "for_loop body i n p s = Some (Inl SignedOverflow)"
  using assms(1-6)
proof (induction i n p arbitrary: s rule: strided.induct)
  case (1 i n p)
  obtain s' where b: "body i s = Inr s'" using total by blast
  show ?case
  proof (cases "i = n")
    case True
    then have "add_int i p = Inl SignedOverflow"
      using "1.prems" by (simp add: add_int_def)
    then show ?thesis using b "1.prems" by (subst for_loop.simps) simp
  next
    case False
    have "p dvd n - i" using "1.prems" by (simp add: mod_eq_0_iff_dvd)
    moreover have "0 < n - i" using False "1.prems" by simp
    ultimately have "p \<le> n - i" by (rule zdvd_imp_le)
    then have le: "i + p \<le> n" by simp
    then have add: "add_int i p = Inr (i + p)"
      using "1.prems" by (simp add: add_int_def)
    have "(n - (i + p)) mod p = (n - i) mod p"
      by (metis diff_diff_eq minus_mod_self2)
    then have "for_loop body (i + p) n p s' = Some (Inl SignedOverflow)"
      using "1.IH" [of s'] "1.prems" le by simp
    then show ?thesis using b add "1.prems" by (subst for_loop.simps) simp
  qed
qed

lemma set_strided_range:
  assumes "0 < p" "0 \<le> r"
  shows "set (strided (r + 1) n p) = range (\<lambda>k. r + 1 + int k * p) \<inter> {1..n}"
proof (rule set_eqI)
  fix j
  show "j \<in> set (strided (r + 1) n p) \<longleftrightarrow> j \<in> range (\<lambda>k. r + 1 + int k * p) \<inter> {1..n}"
  proof
    assume "j \<in> set (strided (r + 1) n p)"
    then have j: "r + 1 \<le> j" "j \<le> n" "(j - (r + 1)) mod p = 0"
      using assms by (simp_all add: set_strided)
    define k where "k = nat ((j - (r + 1)) div p)"
    have "0 \<le> (j - (r + 1)) div p" using j assms by (simp add: pos_imp_zdiv_nonneg_iff)
    then have "int k = (j - (r + 1)) div p" by (simp add: k_def)
    moreover have "(j - (r + 1)) div p * p = j - (r + 1)"
      using j(3) by (simp add: mod_eq_0_iff_dvd)
    ultimately have "j = r + 1 + int k * p" by simp
    then show "j \<in> range (\<lambda>k. r + 1 + int k * p) \<inter> {1..n}"
      using j assms by auto
  next
    assume "j \<in> range (\<lambda>k. r + 1 + int k * p) \<inter> {1..n}"
    then obtain k where k: "j = r + 1 + int k * p" and "j \<le> n" by auto
    have "0 \<le> int k * p" using assms by simp
    then have "r + 1 \<le> j" using k by simp
    moreover have "(j - (r + 1)) mod p = 0" using k by simp
    ultimately show "j \<in> set (strided (r + 1) n p)"
      using \<open>j \<le> n\<close> assms by (simp add: set_strided)
  qed
qed

lemma strided_disjoint:
  assumes "0 < p" "0 \<le> r" "r < p" "0 \<le> r'" "r' < p" "r \<noteq> r'"
  shows "set (strided (r + 1) n p) \<inter> set (strided (r' + 1) n p) = {}"
proof (rule ccontr)
  assume "set (strided (r + 1) n p) \<inter> set (strided (r' + 1) n p) \<noteq> {}"
  then obtain j where "j \<in> set (strided (r + 1) n p)" "j \<in> set (strided (r' + 1) n p)"
    by auto
  then have "p dvd j - (r + 1)" "p dvd j - (r' + 1)"
    using assms by (simp_all add: set_strided mod_eq_0_iff_dvd)
  then have "p dvd (j - (r' + 1)) - (j - (r + 1))" by (simp only: dvd_diff)
  then have d: "p dvd r - r'" by (simp add: algebra_simps)
  have "\<bar>r - r'\<bar> < p" using assms by auto
  with d have "r - r' = 0"
    by (metis abs_dvd_iff dvd_abs_iff zdvd_not_zless abs_ge_zero abs_zero order_le_less zero_less_abs_iff)
  with assms show False by simp
qed

lemma strided_cover:
  assumes "0 < p"
  shows "(\<Union>r\<in>{0..<p}. set (strided (r + 1) n p)) = {1..n}"
proof (rule set_eqI)
  fix j
  show "j \<in> (\<Union>r\<in>{0..<p}. set (strided (r + 1) n p)) \<longleftrightarrow> j \<in> {1..n}"
  proof
    assume "j \<in> (\<Union>r\<in>{0..<p}. set (strided (r + 1) n p))"
    then obtain r where "0 \<le> r" "j \<in> set (strided (r + 1) n p)" by auto
    then show "j \<in> {1..n}" using assms by (simp add: set_strided)
  next
    assume j: "j \<in> {1..n}"
    define r where "r = (j - 1) mod p"
    have r: "0 \<le> r" "r < p" using assms by (simp_all add: r_def)
    have "(j - 1) mod p \<le> j - 1" using j by (intro zmod_le_nonneg_dividend) simp
    then have "r \<le> j - 1" by (simp add: r_def)
    moreover have "(j - (r + 1)) mod p = 0"
      by (simp add: r_def algebra_simps) (metis diff_diff_eq minus_mod_eq_mult_div mod_mult_self1_is_0 mult.commute)
    ultimately have "j \<in> set (strided (r + 1) n p)"
      using j assms by (simp add: set_strided)
    with r show "j \<in> (\<Union>r\<in>{0..<p}. set (strided (r + 1) n p))" by auto
  qed
qed


section \<open>The loop body and the integration step\<close>

lemma for_loop_skip: "n < i \<Longrightarrow> for_loop body i n p s = Some (Inr (i, s))"
  by (subst for_loop.simps) simp

lemma for_loop_rel:
  assumes "0 < p" "R s t"
    and body: "\<And>k s t. R s t \<Longrightarrow> rel_sum E R (body k s) (body' k t)"
    and ovf: "E SignedOverflow SignedOverflow"
  shows "\<exists>y z. for_loop body i n p s = Some y \<and> for_loop body' i n p t = Some z \<and>
               rel_sum E (rel_prod (=) R) y z"
  using assms(1,2)
proof (induction i n p arbitrary: s t rule: strided.induct)
  case (1 i n p)
  show ?case
  proof (cases "i \<le> n")
    case False
    then show ?thesis using "1.prems" by (simp add: for_loop_skip)
  next
    case True
    note le = this
    have unf: "for_loop b i n p u =
        (case b i u of Inl e \<Rightarrow> Some (Inl e)
         | Inr u' \<Rightarrow> (case add_int i p of Inl e \<Rightarrow> Some (Inl e)
                      | Inr i' \<Rightarrow> for_loop b i' n p u'))" for b :: "int \<Rightarrow> 'c \<Rightarrow> error + 'c" and u
      using le by (subst for_loop.simps) simp
    have rel: "rel_sum E R (body i s) (body' i t)" by (rule body [OF "1.prems"(2)])
    show ?thesis
    proof (cases "body i s")
      case (Inl e)
      with rel obtain e' where "body' i t = Inl e'" "E e e'"
        by (cases "body' i t") simp_all
      with Inl show ?thesis by (simp add: unf)
    next
      case (Inr s')
      with rel obtain t' where t': "body' i t = Inr t'" "R s' t'"
        by (cases "body' i t") simp_all
      show ?thesis
      proof (cases "add_int i p")
        case (Inl e)
        then have "e = SignedOverflow" by (simp add: add_int_def split: if_splits)
        with Inl Inr t' ovf show ?thesis by (simp add: unf)
      next
        case add: (Inr i')
        then have "i' = i + p" by (simp add: add_int_def split: if_splits)
        with "1.IH" [OF _ "1.prems"(1) t'(2)] le "1.prems"(1)
        have "\<exists>y z. for_loop body i' n p s' = Some y \<and> for_loop body' i' n p t' = Some z \<and>
               rel_sum E (rel_prod (=) R) y z" by simp
        with add Inr t' show ?thesis by (simp add: unf)
      qed
    qed
  qed
qed

lemma sign_preservingD:
  assumes "sign_preserving rnd"
  shows "rnd 0 = 0" "0 < q \<Longrightarrow> 0 < rnd q" "q < 0 \<Longrightarrow> rnd q < 0"
  using assms by (simp_all add: sign_preserving_def)

lemma sign_preserving_nonzero: "sign_preserving rnd \<Longrightarrow> q \<noteq> 0 \<Longrightarrow> rnd q \<noteq> 0"
  by (metis sign_preservingD(2,3) less_irrefl linorder_neqE_linordered_idom)

lemma sign_preserving_nonneg: "sign_preserving rnd \<Longrightarrow> 0 \<le> q \<Longrightarrow> 0 \<le> rnd q"
  by (metis sign_preservingD(1,2) order_le_less)

lemma sign_preserving_exact: "sign_preserving exact"
  by (simp add: sign_preserving_def exact_def)

lemma kernel_denominator:
  assumes "sign_preserving rnd"
  shows "dadd rnd 1 (dmul rnd x x) \<noteq> 0"
proof -
  have "0 \<le> dmul rnd x x"
    unfolding dmul_def by (rule sign_preserving_nonneg [OF assms]) simp
  then have "0 < 1 + dmul rnd x x" by simp
  then have "0 < dadd rnd 1 (dmul rnd x x)"
    unfolding dadd_def by (rule sign_preservingD(2) [OF assms])
  then show ?thesis by simp
qed

lemma kernel_step_eq:
  assumes "sign_preserving rnd"
  shows "kernel_step rnd i st =
           Inr (st\<lparr>v_x := midpoint rnd (v_h st) i,
                   v_sum := dadd rnd (v_sum st) (kernel_at rnd (midpoint rnd (v_h st) i))\<rparr>)"
  using kernel_denominator [OF assms]
  by (simp add: kernel_step_def midpoint_def kernel_at_def ddiv_def Let_def)

lemma fold_kernel_step:
  assumes "sign_preserving rnd"
  shows "\<exists>x'. fold_err (kernel_step rnd) xs st =
           Inr (st\<lparr>v_x := x', v_sum := kernel_sum rnd (v_h st) (v_sum st) xs\<rparr>)"
proof (induction xs arbitrary: st)
  case Nil
  have "fold_err (kernel_step rnd) [] st =
          Inr (st\<lparr>v_x := v_x st, v_sum := kernel_sum rnd (v_h st) (v_sum st) []\<rparr>)"
    by (simp add: kernel_sum_def)
  then show ?case by blast
next
  case (Cons i xs)
  define st1 where "st1 = st\<lparr>v_x := midpoint rnd (v_h st) i,
                v_sum := dadd rnd (v_sum st) (kernel_at rnd (midpoint rnd (v_h st) i))\<rparr>"
  have k: "kernel_step rnd i st = Inr st1"
    by (simp add: kernel_step_eq [OF assms] st1_def)
  from Cons [of st1] obtain x' where
    f: "fold_err (kernel_step rnd) xs st1 =
       Inr (st1\<lparr>v_x := x', v_sum := kernel_sum rnd (v_h st1) (v_sum st1) xs\<rparr>)" by blast
  have "st1\<lparr>v_x := x', v_sum := kernel_sum rnd (v_h st1) (v_sum st1) xs\<rparr>
          = st\<lparr>v_x := x', v_sum := kernel_sum rnd (v_h st) (v_sum st) (i # xs)\<rparr>"
    by (simp add: st1_def kernel_sum_def)
  with f k have "fold_err (kernel_step rnd) (i # xs) st =
       Inr (st\<lparr>v_x := x', v_sum := kernel_sum rnd (v_h st) (v_sum st) (i # xs)\<rparr>)"
    by simp
  then show ?case by blast
qed

lemma step_width_division:
  assumes "sign_preserving rnd" "n \<noteq> 0"
  shows "ddiv rnd 1 (int_to_double rnd n) = Inr (step_width rnd n)"
proof -
  have "int_to_double rnd n \<noteq> 0"
    unfolding int_to_double_def by (rule sign_preserving_nonzero [OF assms(1)]) (simp add: assms(2))
  then show ?thesis by (simp add: ddiv_def step_width_def)
qed

lemma for_loop_kernel:
  assumes sp: "sign_preserving rnd" and "0 < p"
  shows "for_loop (kernel_step rnd) i n p s = Some (Inl SignedOverflow) \<or>
         (\<exists>j s'. for_loop (kernel_step rnd) i n p s = Some (Inr (j, s')) \<and>
                 s' = s\<lparr>v_x := v_x s', v_sum := v_sum s'\<rparr>)"
proof -
  define R where "R = (\<lambda>(t :: vars) (u :: vars). u = t \<and> t = s\<lparr>v_x := v_x t, v_sum := v_sum t\<rparr>)"
  define E where "E = (\<lambda>e e' :: error. e = SignedOverflow \<and> e' = SignedOverflow)"
  have R0: "R s s" unfolding R_def by simp
  have step: "rel_sum E R (kernel_step rnd k t) (kernel_step rnd k u)" if "R t u" for k t u
  proof -
    from that have u: "u = t" and t: "t = s\<lparr>v_x := v_x t, v_sum := v_sum t\<rparr>"
      unfolding R_def by blast+
    define t' where "t' = t\<lparr>v_x := midpoint rnd (v_h t) k,
               v_sum := dadd rnd (v_sum t) (kernel_at rnd (midpoint rnd (v_h t) k))\<rparr>"
    have k: "kernel_step rnd k t = Inr t'"
      by (simp add: kernel_step_eq [OF sp] t'_def)
    have "t' = (s\<lparr>v_x := v_x t, v_sum := v_sum t\<rparr>)\<lparr>v_x := v_x t', v_sum := v_sum t'\<rparr>"
      unfolding t'_def by (subst t) simp
    then have "t' = s\<lparr>v_x := v_x t', v_sum := v_sum t'\<rparr>" by simp
    with k u show ?thesis unfolding R_def by simp
  qed
  have "E SignedOverflow SignedOverflow" by (simp add: E_def)
  from for_loop_rel [of p R s s E "kernel_step rnd" "kernel_step rnd" i n, OF \<open>0 < p\<close> R0 step this]
  obtain y z where yz: "for_loop (kernel_step rnd) i n p s = Some y"
    "rel_sum E (rel_prod (=) R) y z" by blast
  show ?thesis
  proof (cases y)
    case (Inl e)
    with yz(2) have "e = SignedOverflow" by (cases z) (simp_all add: E_def)
    with Inl yz(1) show ?thesis by simp
  next
    case (Inr js)
    obtain j s' where js: "js = (j, s')" by (cases js)
    with Inr yz(2) have "s' = s\<lparr>v_x := v_x s', v_sum := v_sum s'\<rparr>"
      by (cases z) (auto simp: R_def)
    with Inr yz(1) js show ?thesis by simp
  qed
qed

lemma integrate_cases:
  assumes sp: "sign_preserving rnd" and n: "v_n st \<noteq> 0" and p: "0 < v_numprocs st"
  shows "integrate rnd st = Inl SignedOverflow \<or>
         (\<exists>st'. integrate rnd st = Inr st' \<and>
            st' = st\<lparr>v_h := step_width rnd (v_n st), v_sum := v_sum st', v_x := v_x st',
                      v_i := v_i st', v_mypi := dmul rnd (step_width rnd (v_n st)) (v_sum st')\<rparr>)"
proof -
  define st1 where "st1 = st\<lparr>v_h := step_width rnd (v_n st), v_sum := 0\<rparr>"
  have int: "integrate rnd st =
      (case add_int (v_myid st) 1 of
         Inl e \<Rightarrow> Inl e
       | Inr i0 \<Rightarrow>
          (case for_loop (kernel_step rnd) i0 (v_n st) (v_numprocs st) st1 of
             None \<Rightarrow> Inl NonTermination
           | Some (Inl e) \<Rightarrow> Inl e
           | Some (Inr (iend, st2)) \<Rightarrow>
               Inr (st2\<lparr>v_i := iend, v_mypi := dmul rnd (v_h st2) (v_sum st2)\<rparr>)))"
    by (simp add: integrate_def step_width_division [OF sp n] st1_def Let_def cong: sum.case_cong)
  show ?thesis
  proof (cases "add_int (v_myid st) 1")
    case (Inl e)
    then have "e = SignedOverflow" by (simp add: add_int_def split: if_splits)
    with Inl int show ?thesis by simp
  next
    case (Inr i0)
    from for_loop_kernel [OF sp p, of i0 "v_n st" st1]
    show ?thesis
    proof
      assume "for_loop (kernel_step rnd) i0 (v_n st) (v_numprocs st) st1 = Some (Inl SignedOverflow)"
      with Inr int show ?thesis by simp
    next
      assume "\<exists>j s'. for_loop (kernel_step rnd) i0 (v_n st) (v_numprocs st) st1 = Some (Inr (j, s')) \<and>
                 s' = st1\<lparr>v_x := v_x s', v_sum := v_sum s'\<rparr>"
      then obtain j s' where l: "for_loop (kernel_step rnd) i0 (v_n st) (v_numprocs st) st1 = Some (Inr (j, s'))"
        and s': "s' = st1\<lparr>v_x := v_x s', v_sum := v_sum s'\<rparr>" by blast
      define st' where "st' = s'\<lparr>v_i := j, v_mypi := dmul rnd (v_h s') (v_sum s')\<rparr>"
      have i: "integrate rnd st = Inr st'" using Inr int l by (simp add: st'_def)
      have h: "v_h s' = step_width rnd (v_n st)" by (subst s') (simp add: st1_def)
      have "st' = (st1\<lparr>v_x := v_x s', v_sum := v_sum s'\<rparr>)\<lparr>v_i := j, v_mypi := dmul rnd (v_h s') (v_sum s')\<rparr>"
        unfolding st'_def by (subst s') simp
      then have "st' = st\<lparr>v_h := step_width rnd (v_n st), v_sum := v_sum st', v_x := v_x st',
                      v_i := v_i st', v_mypi := dmul rnd (step_width rnd (v_n st)) (v_sum st')\<rparr>"
        by (simp add: st1_def st'_def h)
      with i show ?thesis by blast
    qed
  qed
qed

lemma integrate_unfold:
  assumes sp: "sign_preserving rnd" and n: "v_n st \<noteq> 0"
  shows "integrate rnd st =
      (case add_int (v_myid st) 1 of
         Inl e \<Rightarrow> Inl e
       | Inr i0 \<Rightarrow>
          (case for_loop (kernel_step rnd) i0 (v_n st) (v_numprocs st)
                  (st\<lparr>v_h := step_width rnd (v_n st), v_sum := 0\<rparr>) of
             None \<Rightarrow> Inl NonTermination
           | Some (Inl e) \<Rightarrow> Inl e
           | Some (Inr (iend, st2)) \<Rightarrow>
               Inr (st2\<lparr>v_i := iend, v_mypi := dmul rnd (v_h st2) (v_sum st2)\<rparr>)))"
  by (simp add: integrate_def step_width_division [OF sp n] Let_def cong: sum.case_cong)

lemma integrate_skip:
  assumes sp: "sign_preserving rnd" and n: "v_n st \<noteq> 0"
    and "v_n st < v_myid st + 1" "INT_MIN \<le> v_myid st + 1" "v_myid st + 1 \<le> INT_MAX"
  shows "integrate rnd st =
           Inr (st\<lparr>v_h := step_width rnd (v_n st), v_sum := 0, v_i := v_myid st + 1,
                   v_mypi := dmul rnd (step_width rnd (v_n st)) 0\<rparr>)"
proof -
  have "add_int (v_myid st) 1 = Inr (v_myid st + 1)"
    using assms(4,5) by (simp add: add_int_def)
  then show ?thesis
    using assms(3) by (simp add: integrate_unfold [OF sp n] for_loop_skip)
qed

lemma integrate_closed:
  assumes sp: "sign_preserving rnd" and n: "v_n st \<noteq> 0"
    and r: "0 \<le> v_myid st" "v_myid st < v_numprocs st" "v_numprocs st \<le> INT_MAX"
    and b: "v_n st + v_numprocs st \<le> INT_MAX"
  shows "\<exists>st'. integrate rnd st = Inr st' \<and>
           v_h st' = step_width rnd (v_n st) \<and>
           v_sum st' = kernel_sum rnd (step_width rnd (v_n st)) 0
                         (strided (v_myid st + 1) (v_n st) (v_numprocs st)) \<and>
           v_mypi st' = scaled_once rnd (v_n st) (v_myid st) (v_numprocs st)"
proof -
  define st1 where "st1 = st\<lparr>v_h := step_width rnd (v_n st), v_sum := 0\<rparr>"
  have a: "add_int (v_myid st) 1 = Inr (v_myid st + 1)"
    using r by (simp add: add_int_def INT_MIN_def)
  have p: "0 < v_numprocs st" and lo: "INT_MIN \<le> v_myid st + 1"
    using r by (simp_all add: INT_MIN_def)
  obtain x' where f: "fold_err (kernel_step rnd) (strided (v_myid st + 1) (v_n st) (v_numprocs st)) st1 =
       Inr (st1\<lparr>v_x := x', v_sum := kernel_sum rnd (v_h st1) (v_sum st1)
                  (strided (v_myid st + 1) (v_n st) (v_numprocs st))\<rparr>)"
    using fold_kernel_step [OF sp] by blast
  have "for_loop (kernel_step rnd) (v_myid st + 1) (v_n st) (v_numprocs st) st1 =
          Some (Inr (v_myid st + 1 +
                     int (length (strided (v_myid st + 1) (v_n st) (v_numprocs st))) * v_numprocs st,
            st1\<lparr>v_x := x', v_sum := kernel_sum rnd (v_h st1) (v_sum st1)
                  (strided (v_myid st + 1) (v_n st) (v_numprocs st))\<rparr>))"
    by (simp add: for_loop_strided [OF p lo b] f)
  then show ?thesis
    using a by (simp add: integrate_unfold [OF sp n] st1_def [symmetric])
       (simp add: st1_def scaled_once_def)
qed

lemma kernel_step_rel:
  assumes "v_h s = v_h t" "v_sum s = v_sum t"
  shows "rel_sum (=) (\<lambda>s t. v_h s = v_h t \<and> v_sum s = v_sum t)
           (kernel_step rnd k s) (kernel_step rnd k t)"
  using assms by (simp add: kernel_step_def Let_def split: sum.splits)

lemma kernel_step_frame:
  "kernel_step rnd k s = Inr s' \<Longrightarrow> s' = s\<lparr>v_x := v_x s', v_sum := v_sum s'\<rparr>"
  by (auto simp: kernel_step_def Let_def split: sum.splits)

lemma for_loop_frame:
  assumes "0 < p" "for_loop (kernel_step rnd) i n p s = Some (Inr (j, s'))"
  shows "s' = s\<lparr>v_x := v_x s', v_sum := v_sum s'\<rparr>"
proof -
  define R where "R = (\<lambda>(t :: vars) (u :: vars). u = t \<and> t = s\<lparr>v_x := v_x t, v_sum := v_sum t\<rparr>)"
  have R0: "R s s" unfolding R_def by simp
  have step: "rel_sum (=) R (kernel_step rnd k t) (kernel_step rnd k u)" if "R t u" for k t u
  proof (cases "kernel_step rnd k t")
    case (Inl e)
    then show ?thesis using that by (simp add: R_def)
  next
    case (Inr t')
    from that have t: "t = s\<lparr>v_x := v_x t, v_sum := v_sum t\<rparr>" and u: "u = t"
      unfolding R_def by blast+
    have "t' = t\<lparr>v_x := v_x t', v_sum := v_sum t'\<rparr>" by (rule kernel_step_frame [OF Inr])
    then have "t' = (s\<lparr>v_x := v_x t, v_sum := v_sum t\<rparr>)\<lparr>v_x := v_x t', v_sum := v_sum t'\<rparr>"
      by (subst (asm) t) simp
    then have "t' = s\<lparr>v_x := v_x t', v_sum := v_sum t'\<rparr>" by simp
    then show ?thesis using Inr u by (simp add: R_def)
  qed
  from for_loop_rel [of p R s s "(=)" "kernel_step rnd" "kernel_step rnd" i n, OF \<open>0 < p\<close> R0 step]
  obtain y z where "for_loop (kernel_step rnd) i n p s = Some y"
    "rel_sum (=) (rel_prod (=) R) y z" by blast
  with assms(2) have "rel_sum (=) (rel_prod (=) R) (Inr (j, s')) z" by simp
  then have "R s' s'" by (cases z) (auto simp: R_def)
  then show ?thesis by (simp add: R_def)
qed

lemma integrate_frame:
  assumes "0 < v_numprocs st" "integrate rnd st = Inr st'"
  shows "st' = st\<lparr>v_h := v_h st', v_sum := v_sum st', v_x := v_x st', v_i := v_i st',
                   v_mypi := v_mypi st'\<rparr>"
proof -
  from assms(2) obtain hv i0 j s' where
    l: "for_loop (kernel_step rnd) i0 (v_n st) (v_numprocs st) (st\<lparr>v_h := hv, v_sum := 0\<rparr>)
          = Some (Inr (j, s'))"
    and st': "st' = s'\<lparr>v_i := j, v_mypi := dmul rnd (v_h s') (v_sum s')\<rparr>"
    by (auto simp: integrate_def Let_def split: sum.splits option.splits)
  have "s' = (st\<lparr>v_h := hv, v_sum := 0\<rparr>)\<lparr>v_x := v_x s', v_sum := v_sum s'\<rparr>"
    by (rule for_loop_frame [OF assms(1) l])
  then have "st' = (st\<lparr>v_h := hv, v_sum := 0\<rparr>)\<lparr>v_x := v_x s', v_sum := v_sum s',
                 v_i := j, v_mypi := dmul rnd (v_h s') (v_sum s')\<rparr>"
    unfolding st' by (rule subst) simp
  then show ?thesis by simp
qed

lemma integrate_immutable:
  assumes "0 < v_numprocs st" "integrate rnd st = Inr st'"
  shows "v_myid st' = v_myid st" "v_numprocs st' = v_numprocs st" "v_n st' = v_n st"
    "v_t0 st' = v_t0 st" "v_t1 st' = v_t1 st" "v_pi st' = v_pi st" "v_done st' = v_done st"
    "mpi_live st' = mpi_live st"
  by (subst integrate_frame [OF assms], simp)+

section \<open>The collectives, one round and the round loop\<close>

lemma bcast_scan:
  assumes "wf_group g"
  shows "MPI_Bcast (map (scan v) g) = map (\<lambda>st. st\<lparr>v_n := v\<rparr>) g"
proof -
  from assms obtain c rest where g: "g = c # rest" by (cases g) (auto simp: wf_group_def)
  from assms have "v_myid (g ! 0) = 0" by (auto simp: wf_group_def)
  then have c: "v_myid c = 0" by (simp add: g)
  have "st\<lparr>v_n := v_n (scan v c)\<rparr> = st\<lparr>v_n := v\<rparr>" for st :: vars
    using c by (simp add: scan_def)
  moreover have "(scan v st)\<lparr>v_n := v\<rparr> = st\<lparr>v_n := v\<rparr>" for st
    by (simp add: scan_def)
  ultimately show ?thesis by (simp add: MPI_Bcast_def g)
qed

lemma wf_group_map:
  assumes "wf_group g" "\<And>st. v_myid (f st) = v_myid st" "\<And>st. v_numprocs (f st) = v_numprocs st"
    "\<And>st. v_done (f st) = v_done st"
  shows "wf_group (map f g)"
  using assms by (auto simp: wf_group_def)

lemma wf_group_nth:
  assumes "wf_group g" "length g' = length g"
    "\<And>r. r < length g \<Longrightarrow> v_myid (g' ! r) = v_myid (g ! r) \<and>
       v_numprocs (g' ! r) = v_numprocs (g ! r) \<and> v_done (g' ! r) = v_done (g ! r)"
  shows "wf_group g'"
  using assms by (auto simp: wf_group_def)

lemma length_start_timer [simp]: "length (start_timer clk g) = length g"
  by (simp add: start_timer_def)

lemma nth_start_timer [simp]:
  "r < length g \<Longrightarrow> start_timer clk g ! r = (g ! r)\<lparr>v_t0 := fst (clk r)\<rparr>"
  by (simp add: start_timer_def nth_enumerate_eq)

lemma length_stop_timer [simp]: "length (stop_timer clk g) = length g"
  by (simp add: stop_timer_def)

lemma nth_stop_timer [simp]:
  "r < length g \<Longrightarrow> stop_timer clk g ! r = (g ! r)\<lparr>v_t1 := snd (clk r)\<rparr>"
  by (simp add: stop_timer_def nth_enumerate_eq)

lemma length_MPI_Reduce [simp]: "length (MPI_Reduce rnd sch g) = length g"
  by (simp add: MPI_Reduce_def split: list.splits)

lemma nth_MPI_Reduce:
  "r < length g \<Longrightarrow>
     MPI_Reduce rnd sch g ! r =
       (if r = 0 then (g ! 0)\<lparr>v_pi := reduce_sum rnd sch (map v_mypi g)\<rparr> else g ! r)"
  by (cases g; cases r) (simp_all add: MPI_Reduce_def)

lemma integrate_all_Inr:
  "integrate_all rnd g = Inr g' \<longleftrightarrow>
     length g' = length g \<and> (\<forall>r < length g. integrate rnd (g ! r) = Inr (g' ! r))"
proof (induction g arbitrary: g')
  case Nil
  then show ?case by auto
next
  case (Cons st g)
  show ?case
  proof (cases g')
    case Nil
    then show ?thesis by (auto split: sum.splits)
  next
    case (Cons st' g'')
    have "(\<forall>r < Suc (length g). integrate rnd ((st # g) ! r) = Inr ((st' # g'') ! r)) \<longleftrightarrow>
          integrate rnd st = Inr st' \<and> (\<forall>r < length g. integrate rnd (g ! r) = Inr (g'' ! r))"
      by (auto simp: nth_Cons split: nat.splits)
    then show ?thesis
      using Cons.IH [of g''] Cons by (auto split: sum.splits)
  qed
qed

lemma integrate_all_Inl:
  "integrate_all rnd g = Inl e \<Longrightarrow> \<exists>st \<in> set g. integrate rnd st = Inl e"
  by (induction g) (auto split: sum.splits)

lemma wf_groupD:
  assumes "wf_group g"
  shows "g \<noteq> []" "0 < length g"
    "r < length g \<Longrightarrow> v_myid (g ! r) = int r"
    "r < length g \<Longrightarrow> v_numprocs (g ! r) = int (length g)"
  using assms by (auto simp: wf_group_def)

lemma loop_test_wf [simp]:
  assumes "wf_group g"
  shows "loop_test g = Inr True"
proof -
  have "v_done st = 0" if "st \<in> set g" for st
    using that assms by (auto simp: wf_group_def in_set_conv_nth)
  then show ?thesis by (simp add: loop_test_def)
qed

lemma loop_test_startup [simp]: "loop_test (startup p junk) = Inr True"
  by (simp add: loop_test_def startup_def)

lemma rounds_Nil_wf [simp]: "wf_group g \<Longrightarrow> rounds rnd g [] out = Inr (False, g, out)"
  by simp

lemma rounds_Cons_wf [simp]:
  "wf_group g \<Longrightarrow>
     rounds rnd g ((v, clk, sch) # ins) out =
       (case one_round rnd v clk sch g of
          Inl e \<Rightarrow> Inl e
        | Inr (True, g', new) \<Rightarrow> Inr (True, g', out @ new)
        | Inr (False, g', new) \<Rightarrow> rounds rnd g' ins (out @ new))"
  by simp

lemma rounds_False_test:
  "rounds rnd g ins out = Inr (False, g', out') \<Longrightarrow> loop_test g' = Inr True"
proof (induction ins arbitrary: g out)
  case Nil
  then show ?case by (auto split: sum.splits bool.splits)
next
  case (Cons a ins)
  obtain v clk sch where a: "a = (v, clk, sch)" by (cases a)
  from Cons.prems show ?case
    by (auto simp: a split: sum.splits bool.splits dest: Cons.IH)
qed

declare rounds.simps [simp del]

lemma wf_startup: "1 \<le> p \<Longrightarrow> wf_group (startup p junk)"
  by (auto simp: wf_group_def startup_def)

lemma length_startup [simp]: "length (startup p junk) = p"
  by (simp add: startup_def)

lemma one_round_quit:
  assumes "wf_group g"
  shows "one_round rnd 0 clk sch g = Inr (True, map (\<lambda>st. st\<lparr>v_n := 0\<rparr>) g, [])"
  by (simp add: one_round_def bcast_scan [OF assms])

lemma one_round_run:
  assumes "wf_group g" "v \<noteq> 0"
  shows "one_round rnd v clk sch g =
           (case integrate_all rnd (start_timer clk (map (\<lambda>st. st\<lparr>v_n := v\<rparr>) g)) of
              Inl e \<Rightarrow> Inl e
            | Inr g2 \<Rightarrow>
                Inr (False, stop_timer clk (MPI_Reduce rnd sch g2),
                     concat (map (print_report rnd) (stop_timer clk (MPI_Reduce rnd sch g2)))))"
proof -
  have "g \<noteq> []" using assms(1) by (rule wf_groupD)
  then show ?thesis
    using assms(2)
    by (simp add: one_round_def bcast_scan [OF assms(1)] Let_def cong: sum.case_cong)
qed

lemma reports_of_group:
  assumes "wf_group g"
  shows "concat (map (print_report rnd) g) = print_report rnd (g ! 0)"
proof -
  from assms obtain c rest where g: "g = c # rest" by (cases g) (auto simp: wf_group_def)
  have "print_report rnd st = []" if "st \<in> set rest" for st
  proof -
    from that obtain k where "k < length rest" "st = rest ! k" by (auto simp: in_set_conv_nth)
    then have "Suc k < length g" "st = g ! Suc k" by (simp_all add: g)
    with assms have "v_myid st = int (Suc k)" by (simp add: wf_group_def)
    then show ?thesis by (simp add: print_report_def)
  qed
  then have "concat (map (print_report rnd) rest) = []" by simp
  then show ?thesis by (simp add: g)
qed

lemma one_round_continue:
  assumes wf: "wf_group g" and v: "v \<noteq> 0" and r: "one_round rnd v clk sch g = Inr (b, g', new)"
  shows "\<not> b" "wf_group g'" "length g' = length g"
    "new = [Report (dsub rnd (snd (clk 0)) (fst (clk 0))) (v_pi (g' ! 0))
                   (fabs (dsub rnd (v_pi (g' ! 0)) M_PI))]"
    "\<And>r. r < length g \<Longrightarrow>
       \<exists>u. integrate rnd ((g ! r)\<lparr>v_n := v, v_t0 := fst (clk r)\<rparr>) = Inr u \<and>
           g' ! r = u\<lparr>v_pi := v_pi (g' ! r), v_t1 := snd (clk r)\<rparr> \<and>
           (0 < r \<longrightarrow> v_pi (g' ! r) = v_pi (g ! r))"
    "v_pi (g' ! 0) = reduce_sum rnd sch (map v_mypi g')"
proof -
  let ?g1 = "start_timer clk (map (\<lambda>st. st\<lparr>v_n := v\<rparr>) g)"
  from r obtain g2 where i: "integrate_all rnd ?g1 = Inr g2"
    and b: "b = False" and g': "g' = stop_timer clk (MPI_Reduce rnd sch g2)"
    and new: "new = concat (map (print_report rnd) g')"
    by (auto simp: one_round_run [OF wf v] split: sum.splits)
  from i have len: "length g2 = length g"
    and each: "\<And>r. r < length g \<Longrightarrow> integrate rnd (?g1 ! r) = Inr (g2 ! r)"
    by (simp_all add: integrate_all_Inr)
  have g1: "?g1 ! r = (g ! r)\<lparr>v_n := v, v_t0 := fst (clk r)\<rparr>" if "r < length g" for r
    using that by simp
  have pos: "0 < v_numprocs (?g1 ! r)" if "r < length g" for r
    using that wf_groupD(2,4) [OF wf] by (simp add: g1)
  have imm: "v_myid (g2 ! r) = v_myid (g ! r)" "v_numprocs (g2 ! r) = v_numprocs (g ! r)"
    "v_t0 (g2 ! r) = fst (clk r)" "v_pi (g2 ! r) = v_pi (g ! r)"
    "v_done (g2 ! r) = v_done (g ! r)" if "r < length g" for r
    using integrate_immutable [OF pos [OF that] each [OF that]] that by (simp_all add: g1)
  show "\<not> b" by (simp add: b)
  show lg: "length g' = length g" by (simp add: g' len)
  have nth: "g' ! r = (if r = 0 then (g2 ! 0)\<lparr>v_pi := reduce_sum rnd sch (map v_mypi g2)\<rparr> else g2 ! r)
                        \<lparr>v_t1 := snd (clk r)\<rparr>" if "r < length g" for r
    using that by (simp add: g' len nth_MPI_Reduce)
  show wf': "wf_group g'"
  proof (rule wf_group_nth [OF wf lg])
    fix r assume "r < length g"
    then show "v_myid (g' ! r) = v_myid (g ! r) \<and> v_numprocs (g' ! r) = v_numprocs (g ! r) \<and>
        v_done (g' ! r) = v_done (g ! r)"
      using imm [of r] by (auto simp: nth)
  qed
  have z: "0 < length g" by (rule wf_groupD(2) [OF wf])
  have "v_myid (g' ! 0) = 0" using wf_groupD(3) [OF wf', of 0] z lg by simp
  moreover have "v_t0 (g' ! 0) = fst (clk 0)" "v_t1 (g' ! 0) = snd (clk 0)"
    using imm(3) [OF z] by (simp_all add: nth [OF z])
  ultimately show "new = [Report (dsub rnd (snd (clk 0)) (fst (clk 0))) (v_pi (g' ! 0))
                   (fabs (dsub rnd (v_pi (g' ! 0)) M_PI))]"
    by (simp add: new reports_of_group [OF wf'] print_report_def)
  show "\<exists>u. integrate rnd ((g ! r)\<lparr>v_n := v, v_t0 := fst (clk r)\<rparr>) = Inr u \<and>
           g' ! r = u\<lparr>v_pi := v_pi (g' ! r), v_t1 := snd (clk r)\<rparr> \<and>
           (0 < r \<longrightarrow> v_pi (g' ! r) = v_pi (g ! r))" if "r < length g" for r
    using each [OF that] imm(4) [OF that] that by (auto simp: g1 nth)
  have "map v_mypi g' = map v_mypi g2"
    by (rule nth_equalityI) (simp_all add: lg len nth)
  moreover have "v_pi (g' ! 0) = reduce_sum rnd sch (map v_mypi g2)"
    by (simp add: nth [OF z])
  ultimately show "v_pi (g' ! 0) = reduce_sum rnd sch (map v_mypi g')"
    by simp
qed

lemma one_round_wf:
  assumes "wf_group g" "one_round rnd v clk sch g = Inr (b, g', new)"
  shows "wf_group g'" "length g' = length g" "b \<longleftrightarrow> v = 0"
proof -
  show "wf_group g'"
  proof (cases "v = 0")
    case True
    then have "g' = map (\<lambda>st. st\<lparr>v_n := 0\<rparr>) g"
      using assms by (simp add: one_round_quit)
    then show ?thesis using assms(1) by (simp add: wf_group_map)
  next
    case False
    then show ?thesis using one_round_continue(2) [OF assms(1) _ assms(2)] by simp
  qed
  show "length g' = length g"
  proof (cases "v = 0")
    case True
    then show ?thesis using assms by (auto simp: one_round_quit)
  next
    case False
    then show ?thesis using one_round_continue(3) [OF assms(1) _ assms(2)] by simp
  qed
  show "b \<longleftrightarrow> v = 0"
  proof (cases "v = 0")
    case True
    then show ?thesis using assms by (auto simp: one_round_quit)
  next
    case False
    then show ?thesis using one_round_continue(1) [OF assms(1) _ assms(2)] by simp
  qed
qed

lemma rounds_append:
  "rounds rnd g (ins @ ins') out =
     (case rounds rnd g ins out of
        Inl e \<Rightarrow> Inl e
      | Inr (True, g', out') \<Rightarrow> Inr (True, g', out')
      | Inr (False, g', out') \<Rightarrow> rounds rnd g' ins' out')"
proof (induction ins arbitrary: g out)
  case Nil
  show ?case
  proof (cases ins')
    case Nil
    then show ?thesis by (simp add: rounds.simps split: sum.splits bool.splits)
  next
    case (Cons b l)
    obtain v clk sch where "b = (v, clk, sch)" by (cases b)
    with Cons show ?thesis by (simp add: rounds.simps split: sum.splits bool.splits)
  qed
next
  case (Cons a ins)
  obtain v clk sch where a: "a = (v, clk, sch)" by (cases a)
  show ?case
    by (simp add: a Cons.IH rounds.simps split: sum.splits prod.splits bool.splits)
qed

lemma rounds_wf:
  assumes "wf_group g" "rounds rnd g ins out = Inr (b, g', out')"
  shows "wf_group g'" "length g' = length g"
  using assms
proof (induction ins arbitrary: g out)
  case Nil
  { case 1 then show ?case by simp }
  { case 2 then show ?case by simp }
next
  case (Cons a ins)
  obtain v clk sch where a: "a = (v, clk, sch)" by (cases a)
  { case 1
    from 1 obtain b1 g1 new where o: "one_round rnd v clk sch g = Inr (b1, g1, new)"
      by (auto simp: a split: sum.splits)
    show ?case
    proof (cases b1)
      case True
      with o 1 have "g' = g1" by (simp add: a)
      with one_round_wf(1) [OF 1(1) o] show ?thesis by simp
    next
      case False
      with o 1 have "rounds rnd g1 ins (out @ new) = Inr (b, g', out')" by (simp add: a)
      with Cons.IH(1) [OF one_round_wf(1) [OF 1(1) o]] show ?thesis by simp
    qed }
  { case 2
    from 2 obtain b1 g1 new where o: "one_round rnd v clk sch g = Inr (b1, g1, new)"
      by (auto simp: a split: sum.splits)
    show ?case
    proof (cases b1)
      case True
      with o 2 have "g' = g1" by (simp add: a)
      with one_round_wf(2) [OF 2(1) o] show ?thesis by simp
    next
      case False
      with o 2 have "rounds rnd g1 ins (out @ new) = Inr (b, g', out')" by (simp add: a)
      with Cons.IH(2) [OF one_round_wf(1) [OF 2(1) o]] one_round_wf(2) [OF 2(1) o]
      show ?thesis by simp
    qed }
qed

lemma main_AwaitingInput:
  "main rnd p junk ins = Inr (AwaitingInput g out) \<longleftrightarrow>
     rounds rnd (startup p junk) ins [] = Inr (False, g, out)"
  by (auto simp: main_def split: sum.splits bool.splits)

lemma main_Exited:
  "main rnd p junk ins = Inr (Exited codes g out) \<longleftrightarrow>
     (\<exists>g0. rounds rnd (startup p junk) ins [] = Inr (True, g0, out) \<and>
           codes = map (\<lambda>st. 0) g0 \<and> g = MPI_Finalize g0)"
  by (auto simp: main_def split: sum.splits bool.splits)

lemma main_Inl:
  "main rnd p junk ins = Inl e \<longleftrightarrow> rounds rnd (startup p junk) ins [] = Inl e"
  by (auto simp: main_def split: sum.splits bool.splits)

lemma main_reached:
  assumes "1 \<le> p" "main rnd p junk ins = Inr (AwaitingInput g out)"
  shows "wf_group g" "length g = p"
  using rounds_wf [OF wf_startup [OF assms(1)]] assms(2)
  by (simp_all add: main_AwaitingInput)

lemma main_snoc:
  assumes "main rnd p junk ins = Inr (AwaitingInput g out)"
  shows "main rnd p junk (ins @ (v, clk, sch) # rest) =
           (case one_round rnd v clk sch g of
              Inl e \<Rightarrow> Inl e
            | Inr (True, g', new) \<Rightarrow> Inr (Exited (map (\<lambda>st. 0) g') (MPI_Finalize g') (out @ new))
            | Inr (False, g', new) \<Rightarrow>
                (case rounds rnd g' rest (out @ new) of
                   Inl e \<Rightarrow> Inl e
                 | Inr (False, g'', out') \<Rightarrow> Inr (AwaitingInput g'' out')
                 | Inr (True, g'', out') \<Rightarrow>
                     Inr (Exited (map (\<lambda>st. 0) g'') (MPI_Finalize g'') out')))"
proof -
  from assms have "rounds rnd (startup p junk) ins [] = Inr (False, g, out)"
    by (simp add: main_AwaitingInput)
  then have "rounds rnd (startup p junk) (ins @ (v, clk, sch) # rest) [] =
               rounds rnd g ((v, clk, sch) # rest) out" and "loop_test g = Inr True"
    by (simp_all add: rounds_append rounds_False_test)
  then show ?thesis
    by (auto simp: main_def rounds.simps split: sum.splits bool.splits)
qed

section \<open>Rounding to binary64\<close>

lemma bitlen_rat_bounds:
  assumes "0 < a"
  shows "2 powi (bitlen a - 1) \<le> (of_int a :: rat)" "(of_int a :: rat) < 2 powi bitlen a"
proof -
  from bitlen_bounds [OF assms]
  have lo: "2 ^ nat (bitlen a - 1) \<le> a" and hi: "a < 2 ^ nat (bitlen a)" by simp_all
  have pos: "1 \<le> bitlen a" using assms bitlen_eq_zero_iff [of a] bitlen_nonneg [of a] by linarith
  have "(of_int (2 ^ nat (bitlen a - 1)) :: rat) \<le> of_int a" using lo by (simp only: of_int_le_iff)
  then show "2 powi (bitlen a - 1) \<le> (of_int a :: rat)"
    using pos by (simp add: power_int_def)
  have "(of_int a :: rat) < of_int (2 ^ nat (bitlen a))" using hi by (simp only: of_int_less_iff)
  then show "(of_int a :: rat) < 2 powi bitlen a"
    using pos by (simp add: power_int_def)
qed

lemma ilog2_bounds:
  assumes "0 < q"
  shows "2 powi ilog2 q \<le> q" "q < 2 powi (ilog2 q + 1)"
proof -
  obtain a b where ab: "quotient_of q = (a, b)" by (cases "quotient_of q")
  have b: "0 < b" by (rule quotient_of_denom_pos [OF ab])
  have q: "q = of_int a / of_int b" by (rule quotient_of_div [OF ab])
  have a: "0 < a" using assms b by (simp add: q zero_less_divide_iff)
  define k where "k = bitlen a - bitlen b"
  have B: "0 < (of_int b :: rat)" using b by simp
  note la = bitlen_rat_bounds [OF a] and lb = bitlen_rat_bounds [OF b]
  have "2 powi (k - 1) * of_int b < (2 powi (k - 1) * 2 powi bitlen b :: rat)"
    using lb(2) by (intro mult_strict_left_mono) simp_all
  also have "\<dots> = 2 powi (bitlen a - 1)"
    by (simp add: k_def flip: power_int_add)
  also have "\<dots> \<le> of_int a" by (rule la(1))
  finally have low: "2 powi (k - 1) < q"
    using B by (simp add: q pos_less_divide_eq)
  have "of_int a < (2 powi bitlen a :: rat)" by (rule la(2))
  also have "\<dots> = 2 powi (k + 1) * 2 powi (bitlen b - 1)"
    by (simp add: k_def flip: power_int_add)
  also have "\<dots> \<le> 2 powi (k + 1) * of_int b"
    using lb(1) by (intro mult_left_mono) simp_all
  finally have high: "q < 2 powi (k + 1)"
    using B by (simp add: q pos_divide_less_eq)
  have il: "ilog2 q = (if 2 powi k \<le> q then k else k - 1)"
    by (simp add: ilog2_def ab k_def)
  show "2 powi ilog2 q \<le> q" using low by (simp add: il)
  show "q < 2 powi (ilog2 q + 1)" using high by (auto simp: il)
qed

lemma ilog2_unique:
  assumes "0 < q" "2 powi e \<le> q" "q < 2 powi (e + 1)"
  shows "ilog2 q = e"
proof -
  note b = ilog2_bounds [OF assms(1)]
  have "(2::rat) powi e < 2 powi (ilog2 q + 1)" using assms(2) b(2) by simp
  then have "e < ilog2 q + 1"
    by (metis power_int_increasing linorder_not_less one_le_numeral)
  moreover have "(2::rat) powi ilog2 q < 2 powi (e + 1)" using assms(3) b(1) by simp
  then have "ilog2 q < e + 1"
    by (metis power_int_increasing linorder_not_less one_le_numeral)
  ultimately show ?thesis by simp
qed

lemma rint_ge_floor: "\<lfloor>q\<rfloor> \<le> rint q"
  by (simp add: rint_def Let_def)

lemma binary64_pos:
  assumes "0 < q"
  shows "0 < binary64 q"
proof -
  define e where "e = ilog2 q"
  have "2 powi e \<le> q" unfolding e_def by (rule ilog2_bounds [OF assms])
  then have "2 powi e * 2 powi (52 - e) \<le> q * 2 powi (52 - e)"
    by (intro mult_right_mono) simp_all
  then have "2 ^ 52 \<le> q * 2 powi (52 - e)"
    by (simp flip: power_int_add)
  then have "1 \<le> q * 2 powi (52 - e)" by simp
  then have "1 \<le> \<lfloor>q * 2 powi (52 - e)\<rfloor>" by simp
  then have "0 < rint (q * 2 powi (52 - e))" using rint_ge_floor [of "q * 2 powi (52 - e)"] by linarith
  then show ?thesis
    using assms by (simp add: binary64_def e_def Let_def)
qed

lemma binary64_neg: "binary64 (- q) = - binary64 q"
  by (simp add: binary64_def Let_def)

lemma sign_preserving_binary64: "sign_preserving binary64"
proof -
  have "binary64 q < 0" if "q < 0" for q
    using binary64_pos [of "- q"] that by (simp add: binary64_neg)
  then show ?thesis
    by (simp add: sign_preserving_def binary64_pos) (simp add: binary64_def)
qed

section \<open>Errors, exits and closed forms of a round\<close>

lemma rounds_exit_cases:
  assumes "wf_group g" "rounds rnd g ins out = Inr (True, g', out')"
  shows "\<exists>pre clk sch rest g0. ins = pre @ (0, clk, sch) # rest \<and>
           rounds rnd g pre out = Inr (False, g0, out') \<and> g' = map (\<lambda>st. st\<lparr>v_n := 0\<rparr>) g0"
  using assms
proof (induction ins arbitrary: g out)
  case Nil
  then show ?case by simp
next
  case (Cons a ins)
  obtain v clk sch where a: "a = (v, clk, sch)" by (cases a)
  from Cons.prems obtain b1 g1 new where o: "one_round rnd v clk sch g = Inr (b1, g1, new)"
    by (auto simp: a split: sum.splits)
  note wf1 = one_round_wf [OF Cons.prems(1) o]
  show ?case
  proof (cases "v = 0")
    case True
    with o have "b1" "g1 = map (\<lambda>st. st\<lparr>v_n := 0\<rparr>) g" "new = []"
      using Cons.prems(1) by (simp_all add: one_round_quit)
    with o Cons.prems have "g' = map (\<lambda>st. st\<lparr>v_n := 0\<rparr>) g" "out' = out"
      by (simp_all add: a)
    then have "a # ins = [] @ (0, clk, sch) # ins \<and> rounds rnd g [] out = Inr (False, g, out') \<and>
               g' = map (\<lambda>st. st\<lparr>v_n := 0\<rparr>) g"
      using True Cons.prems(1) by (simp add: a)
    then show ?thesis by blast
  next
    case False
    with wf1(3) have nb: "\<not> b1" by simp
    with o Cons.prems have "rounds rnd g1 ins (out @ new) = Inr (True, g', out')"
      by (simp add: a)
    from Cons.IH [OF wf1(1) this] obtain pre clk' sch' rest g0 where
      p: "ins = pre @ (0, clk', sch') # rest" "rounds rnd g1 pre (out @ new) = Inr (False, g0, out')"
        "g' = map (\<lambda>st. st\<lparr>v_n := 0\<rparr>) g0" by blast
    have "rounds rnd g (a # pre) out = Inr (False, g0, out')"
      using o nb p(2) Cons.prems(1) by (simp add: a)
    with p(1,3) have "a # ins = (a # pre) @ (0, clk', sch') # rest \<and>
        rounds rnd g (a # pre) out = Inr (False, g0, out') \<and> g' = map (\<lambda>st. st\<lparr>v_n := 0\<rparr>) g0"
      by simp
    then show ?thesis by blast
  qed
qed

lemma finalize_after_quit:
  "MPI_Finalize (map (\<lambda>st. st\<lparr>v_n := 0\<rparr>) g) = map (\<lambda>st. st\<lparr>v_n := 0, mpi_live := False\<rparr>) g"
  by (simp add: MPI_Finalize_def)

lemma main_quit:
  assumes "1 \<le> p" "main rnd p junk ins = Inr (AwaitingInput g out)"
  shows "main rnd p junk (ins @ (0, clk, sch) # rest) =
           Inr (Exited (replicate p 0) (map (\<lambda>st. st\<lparr>v_n := 0, mpi_live := False\<rparr>) g) out)"
proof -
  note r = main_reached [OF assms]
  have "map (\<lambda>st. 0::int) g = replicate p 0"
    using r(2) by (simp add: map_replicate_const)
  then show ?thesis
    by (simp add: main_snoc [OF assms(2)] one_round_quit [OF r(1)] finalize_after_quit comp_def)
qed

lemma main_exit_cases:
  assumes "1 \<le> p" "main rnd p junk ins = Inr (Exited codes g' out')"
  shows "\<exists>pre clk sch rest g0. ins = pre @ (0, clk, sch) # rest \<and>
           main rnd p junk pre = Inr (AwaitingInput g0 out') \<and>
           g' = map (\<lambda>st. st\<lparr>v_n := 0, mpi_live := False\<rparr>) g0 \<and> codes = replicate p 0"
proof -
  from assms(2) obtain g1 where g1: "rounds rnd (startup p junk) ins [] = Inr (True, g1, out')"
    "codes = map (\<lambda>st. 0) g1" "g' = MPI_Finalize g1"
    by (auto simp: main_Exited)
  from rounds_exit_cases [OF wf_startup [OF assms(1)] g1(1)] obtain pre clk sch rest g0 where
    p: "ins = pre @ (0, clk, sch) # rest" "rounds rnd (startup p junk) pre [] = Inr (False, g0, out')"
      "g1 = map (\<lambda>st. st\<lparr>v_n := 0\<rparr>) g0" by blast
  have m: "main rnd p junk pre = Inr (AwaitingInput g0 out')"
    using p(2) by (simp add: main_AwaitingInput)
  have "length g0 = p" by (rule main_reached(2) [OF assms(1) m])
  then have "codes = replicate p 0" by (simp add: g1(2) p(3) map_replicate_const)
  with p(1) m g1(3) p(3) show ?thesis
    by (auto simp: finalize_after_quit)
qed

lemma kernel_step_error: "kernel_step rnd k s = Inl e \<Longrightarrow> e = DivisionByZero"
  by (auto simp: kernel_step_def ddiv_def Let_def split: sum.splits if_splits)

lemma for_loop_error:
  assumes "0 < p" "for_loop (kernel_step rnd) i n p s = Some (Inl e)"
  shows "e = SignedOverflow \<or> e = DivisionByZero"
proof -
  define E where "E = (\<lambda>(e :: error) (e' :: error). e = SignedOverflow \<or> e = DivisionByZero)"
  have step: "rel_sum E (=) (kernel_step rnd k t) (kernel_step rnd k u)" if "t = u" for k t u
    using that kernel_step_error [of rnd k u]
    by (cases "kernel_step rnd k u") (auto simp: E_def)
  have "E SignedOverflow SignedOverflow" by (simp add: E_def)
  from for_loop_rel [of p "(=)" s s E "kernel_step rnd" "kernel_step rnd" i n, OF assms(1) refl step this]
  obtain y z where "for_loop (kernel_step rnd) i n p s = Some y" "rel_sum E (rel_prod (=) (=)) y z"
    by blast
  with assms(2) have "rel_sum E (rel_prod (=) (=)) (Inl e) z" by simp
  then show ?thesis by (cases z) (auto simp: E_def)
qed

lemma for_loop_terminates:
  assumes "0 < p"
  shows "for_loop (kernel_step rnd) i n p s \<noteq> None"
proof -
  have step: "rel_sum (\<lambda>e e'. True) (=) (kernel_step rnd k t) (kernel_step rnd k u)" if "t = u" for k t u
    using that by (cases "kernel_step rnd k u") auto
  from for_loop_rel [of p "(=)" s s "\<lambda>e e'. True" "kernel_step rnd" "kernel_step rnd" i n,
      OF assms(1) refl step]
  show ?thesis by auto
qed

lemma integrate_error:
  assumes "0 < v_numprocs st" "integrate rnd st = Inl e"
  shows "e = SignedOverflow \<or> e = DivisionByZero"
proof (cases "ddiv rnd 1 (int_to_double rnd (v_n st))")
  case (Inl e')
  then have "e' = DivisionByZero" by (simp add: ddiv_def split: if_splits)
  with Inl assms(2) show ?thesis by (simp add: integrate_def)
next
  case (Inr hv)
  show ?thesis
  proof (cases "add_int (v_myid st) 1")
    case (Inl e')
    then have "e' = SignedOverflow" by (simp add: add_int_def split: if_splits)
    with Inl Inr assms(2) show ?thesis by (simp add: integrate_def)
  next
    case add: (Inr i0)
    let ?l = "for_loop (kernel_step rnd) i0 (v_n st) (v_numprocs st) (st\<lparr>v_h := hv, v_sum := 0\<rparr>)"
    from for_loop_terminates [OF assms(1), of rnd i0 "v_n st" "st\<lparr>v_h := hv, v_sum := 0\<rparr>"]
    obtain y where y: "?l = Some y" by auto
    with assms(2) Inr add have "y = Inl e"
      by (cases y) (auto simp: integrate_def Let_def)
    with y for_loop_error [OF assms(1), of rnd i0 "v_n st" "st\<lparr>v_h := hv, v_sum := 0\<rparr>" e]
    show ?thesis by simp
  qed
qed

lemma one_round_error:
  assumes "wf_group g" "one_round rnd v clk sch g = Inl e"
  shows "v \<noteq> 0 \<and> (\<exists>r < length g. integrate rnd ((g ! r)\<lparr>v_n := v, v_t0 := fst (clk r)\<rparr>) = Inl e)"
proof -
  have v: "v \<noteq> 0" using assms by (auto simp: one_round_quit)
  let ?g1 = "start_timer clk (map (\<lambda>st. st\<lparr>v_n := v\<rparr>) g)"
  from assms(2) have "integrate_all rnd ?g1 = Inl e"
    by (simp add: one_round_run [OF assms(1) v] split: sum.splits)
  then obtain st where "st \<in> set ?g1" "integrate rnd st = Inl e"
    using integrate_all_Inl by blast
  then obtain r where "r < length g" "integrate rnd (?g1 ! r) = Inl e"
    by (auto simp: in_set_conv_nth)
  then have "r < length g \<and> integrate rnd ((g ! r)\<lparr>v_n := v, v_t0 := fst (clk r)\<rparr>) = Inl e"
    by simp
  with v show ?thesis by blast
qed

lemma one_round_error_kind:
  assumes "wf_group g" "one_round rnd v clk sch g = Inl e"
  shows "e = SignedOverflow \<or> e = DivisionByZero" "sign_preserving rnd \<Longrightarrow> e = SignedOverflow"
proof -
  from one_round_error [OF assms] obtain r where v: "v \<noteq> 0" and r: "r < length g"
    and i: "integrate rnd ((g ! r)\<lparr>v_n := v, v_t0 := fst (clk r)\<rparr>) = Inl e" by blast
  have p: "0 < v_numprocs ((g ! r)\<lparr>v_n := v, v_t0 := fst (clk r)\<rparr>)"
    using wf_groupD(2,4) [OF assms(1)] r by simp
  show "e = SignedOverflow \<or> e = DivisionByZero" by (rule integrate_error [OF p i])
  show "e = SignedOverflow" if "sign_preserving rnd"
    using integrate_cases [OF that _ p] v i by auto
qed

lemma rounds_error_kind:
  assumes "wf_group g" "rounds rnd g ins out = Inl e"
  shows "e = SignedOverflow \<or> e = DivisionByZero" "sign_preserving rnd \<Longrightarrow> e = SignedOverflow"
proof -
  have "\<exists>g0 v clk sch. wf_group g0 \<and> one_round rnd v clk sch g0 = Inl e"
    using assms
  proof (induction ins arbitrary: g out)
    case Nil
    then show ?case by simp
  next
    case (Cons a ins)
    obtain v clk sch where a: "a = (v, clk, sch)" by (cases a)
    show ?case
    proof (cases "one_round rnd v clk sch g")
      case (Inl e')
      with Cons.prems show ?thesis by (auto simp: a)
    next
      case (Inr res)
      obtain b1 g1 new where res: "res = (b1, g1, new)" by (cases res)
      note wf1 = one_round_wf [OF Cons.prems(1) Inr [unfolded res]]
      from Cons.prems Inr res have "rounds rnd g1 ins (out @ new) = Inl e"
        by (cases b1) (simp_all add: a)
      from Cons.IH [OF wf1(1) this] show ?thesis .
    qed
  qed
  then obtain g0 v clk sch where o: "wf_group g0" "one_round rnd v clk sch g0 = Inl e" by blast
  show "e = SignedOverflow \<or> e = DivisionByZero" by (rule one_round_error_kind(1) [OF o])
  show "e = SignedOverflow" if "sign_preserving rnd" by (rule one_round_error_kind(2) [OF o that])
qed

lemma rounds_empty_group: "rounds rnd [] ins out \<noteq> Inl e"
  by (cases ins) (auto simp: one_round_def MPI_Bcast_def rounds.simps loop_test_def)

lemma main_error_kind:
  assumes "main rnd p junk ins = Inl e"
  shows "e = SignedOverflow \<or> e = DivisionByZero" "sign_preserving rnd \<Longrightarrow> e = SignedOverflow"
proof -
  from assms have r: "rounds rnd (startup p junk) ins [] = Inl e" by (simp add: main_Inl)
  have "0 < p"
  proof (rule ccontr)
    assume "\<not> 0 < p"
    then have "startup p junk = []" by (simp add: startup_def)
    with r rounds_empty_group show False by simp
  qed
  then have wf: "wf_group (startup p junk)" by (simp add: wf_startup)
  show "e = SignedOverflow \<or> e = DivisionByZero" by (rule rounds_error_kind(1) [OF wf r])
  show "e = SignedOverflow" if "sign_preserving rnd" by (rule rounds_error_kind(2) [OF wf r that])
qed

lemma one_round_live:
  assumes "wf_group g" "one_round rnd v clk sch g = Inr (b, g', new)" "\<forall>st \<in> set g. mpi_live st"
  shows "\<forall>st \<in> set g'. mpi_live st"
proof (cases "v = 0")
  case True
  with assms show ?thesis by (auto simp: one_round_quit)
next
  case False
  note c = one_round_continue [OF assms(1) False assms(2)]
  have "mpi_live (g' ! r)" if "r < length g" for r
  proof -
    from c(5) [OF that] obtain u where
      u: "integrate rnd ((g ! r)\<lparr>v_n := v, v_t0 := fst (clk r)\<rparr>) = Inr u"
      "g' ! r = u\<lparr>v_pi := v_pi (g' ! r), v_t1 := snd (clk r)\<rparr>" by blast
    have "0 < v_numprocs ((g ! r)\<lparr>v_n := v, v_t0 := fst (clk r)\<rparr>)"
      using wf_groupD(2,4) [OF assms(1)] that by simp
    from integrate_immutable(8) [OF this u(1)] have "mpi_live u = mpi_live (g ! r)" by simp
    moreover have "mpi_live (g ! r)" using assms(3) that by simp
    ultimately have "mpi_live u" by simp
    then have "mpi_live (u\<lparr>v_pi := v_pi (g' ! r), v_t1 := snd (clk r)\<rparr>)" by simp
    with u(2) show ?thesis by simp
  qed
  then show ?thesis using c(3) by (auto simp: in_set_conv_nth)
qed

lemma rounds_live:
  assumes "wf_group g" "rounds rnd g ins out = Inr (b, g', out')" "\<forall>st \<in> set g. mpi_live st"
  shows "\<forall>st \<in> set g'. mpi_live st"
  using assms
proof (induction ins arbitrary: g out)
  case Nil
  then show ?case by simp
next
  case (Cons a ins)
  obtain v clk sch where a: "a = (v, clk, sch)" by (cases a)
  from Cons.prems obtain b1 g1 new where o: "one_round rnd v clk sch g = Inr (b1, g1, new)"
    by (auto simp: a split: sum.splits)
  note wf1 = one_round_wf [OF Cons.prems(1) o]
  note l1 = one_round_live [OF Cons.prems(1) o Cons.prems(3)]
  show ?case
  proof (cases b1)
    case True
    with o Cons.prems have "g' = g1" by (simp add: a)
    with l1 show ?thesis by simp
  next
    case False
    with o Cons.prems have "rounds rnd g1 ins (out @ new) = Inr (b, g', out')" by (simp add: a)
    from Cons.IH [OF wf1(1) this l1] show ?thesis .
  qed
qed

lemma startup_live: "\<forall>st \<in> set (startup p junk). mpi_live st"
  by (auto simp: startup_def)

lemma owned_skip:
  assumes "n < r + 1" "INT_MIN \<le> r + 1" "r + 1 \<le> INT_MAX"
  shows "owned n r p = Some (Inr [])"
proof -
  have "add_int r 1 = Inr (r + 1)" using assms(2,3) by (simp add: add_int_def)
  then show ?thesis using assms(1) by (simp add: owned_def for_loop_skip)
qed

lemma reduce_sum_zeros:
  assumes "rnd 0 = 0"
  shows "reduce_sum rnd sch (replicate k 0) = 0"
  by (induction sch) (simp_all add: dadd_def assms)

lemma main_round_closed:
  assumes sp: "sign_preserving rnd" and p: "1 \<le> p" and n: "n \<noteq> 0"
    and b: "int p \<le> INT_MAX" "n + int p \<le> INT_MAX"
    and m: "main rnd p junk ins = Inr (AwaitingInput g out)"
  shows "\<exists>g' rep. main rnd p junk (ins @ [(n, clk, sch)]) = Inr (AwaitingInput g' (out @ [rep])) \<and>
           length g' = p \<and>
           (\<forall>r < p. v_mypi (g' ! r) = scaled_once rnd n (int r) (int p) \<and>
                    v_sum (g' ! r) = kernel_sum rnd (step_width rnd n) 0
                                       (strided (int r + 1) n (int p)) \<and>
                    v_h (g' ! r) = step_width rnd n) \<and>
           v_pi (g' ! 0) = reduce_sum rnd sch (map (\<lambda>r. scaled_once rnd n (int r) (int p)) [0..<p]) \<and>
           approximation rep = v_pi (g' ! 0)"
proof -
  note r = main_reached [OF p m]
  let ?g1 = "start_timer clk (map (\<lambda>st. st\<lparr>v_n := n\<rparr>) g)"
  have each: "\<exists>u. integrate rnd (?g1 ! k) = Inr u \<and> v_h u = step_width rnd n \<and>
                v_sum u = kernel_sum rnd (step_width rnd n) 0 (strided (int k + 1) n (int p)) \<and>
                v_mypi u = scaled_once rnd n (int k) (int p)" if "k < length g" for k
  proof -
    have id: "v_myid (?g1 ! k) = int k" "v_n (?g1 ! k) = n" "v_numprocs (?g1 ! k) = int p"
      using that wf_groupD(3,4) [OF r(1) that] r(2) by simp_all
    show ?thesis
      using integrate_closed [OF sp, of "?g1 ! k"] n b that r(2) unfolding id by simp
  qed
  define g2 where "g2 = map (\<lambda>k. SOME u. integrate rnd (?g1 ! k) = Inr u) [0..<length g]"
  have g2: "integrate rnd (?g1 ! k) = Inr (g2 ! k)" if "k < length g" for k
  proof -
    from each [OF that] obtain u where "integrate rnd (?g1 ! k) = Inr u" by blast
    then have "integrate rnd (?g1 ! k) = Inr (SOME u. integrate rnd (?g1 ! k) = Inr u)"
      by (rule someI)
    then show ?thesis using that by (simp add: g2_def)
  qed
  have "length g2 = length g" by (simp add: g2_def)
  with g2 have "integrate_all rnd ?g1 = Inr g2" by (simp add: integrate_all_Inr)
  then obtain g' new where o: "one_round rnd n clk sch g = Inr (False, g', new)"
    by (simp add: one_round_run [OF r(1) n])
  note c = one_round_continue [OF r(1) n o]
  have mm: "main rnd p junk (ins @ [(n, clk, sch)]) = Inr (AwaitingInput g' (out @ new))"
    using c(2) by (simp add: main_snoc [OF m] o)
  have rank: "v_mypi (g' ! k) = scaled_once rnd n (int k) (int p) \<and>
              v_sum (g' ! k) = kernel_sum rnd (step_width rnd n) 0 (strided (int k + 1) n (int p)) \<and>
              v_h (g' ! k) = step_width rnd n" if "k < p" for k
  proof -
    have k: "k < length g" using that r(2) by simp
    from c(5) [OF k] obtain u where
      u: "integrate rnd ((g ! k)\<lparr>v_n := n, v_t0 := fst (clk k)\<rparr>) = Inr u"
      "g' ! k = u\<lparr>v_pi := v_pi (g' ! k), v_t1 := snd (clk k)\<rparr>" by blast
    from each [OF k] u(1) k have "v_h u = step_width rnd n \<and>
        v_sum u = kernel_sum rnd (step_width rnd n) 0 (strided (int k + 1) n (int p)) \<and>
        v_mypi u = scaled_once rnd n (int k) (int p)" by simp
    then have "v_h (u\<lparr>v_pi := v_pi (g' ! k), v_t1 := snd (clk k)\<rparr>) = step_width rnd n \<and>
        v_sum (u\<lparr>v_pi := v_pi (g' ! k), v_t1 := snd (clk k)\<rparr>) =
          kernel_sum rnd (step_width rnd n) 0 (strided (int k + 1) n (int p)) \<and>
        v_mypi (u\<lparr>v_pi := v_pi (g' ! k), v_t1 := snd (clk k)\<rparr>) = scaled_once rnd n (int k) (int p)"
      by simp
    then show ?thesis using u(2) by simp
  qed
  have "map v_mypi g' = map (\<lambda>r. scaled_once rnd n (int r) (int p)) [0..<p]"
    using rank c(3) r(2) by (intro nth_equalityI) simp_all
  then have pi: "v_pi (g' ! 0) = reduce_sum rnd sch (map (\<lambda>r. scaled_once rnd n (int r) (int p)) [0..<p])"
    using c(6) by simp
  from c(4) obtain rep where rep: "new = [rep]" "approximation rep = v_pi (g' ! 0)" by simp
  have "main rnd p junk (ins @ [(n, clk, sch)]) = Inr (AwaitingInput g' (out @ [rep])) \<and>
           length g' = p \<and>
           (\<forall>r < p. v_mypi (g' ! r) = scaled_once rnd n (int r) (int p) \<and>
                    v_sum (g' ! r) = kernel_sum rnd (step_width rnd n) 0
                                       (strided (int r + 1) n (int p)) \<and>
                    v_h (g' ! r) = step_width rnd n) \<and>
           v_pi (g' ! 0) = reduce_sum rnd sch (map (\<lambda>r. scaled_once rnd n (int r) (int p)) [0..<p]) \<and>
           approximation rep = v_pi (g' ! 0)"
    using mm rep rank pi c(3) r(2) by simp
  then show ?thesis by blast
qed

lemma exact_ops [simp]:
  "dadd exact a b = a + b" "dsub exact a b = a - b" "dmul exact a b = a * b"
  "int_to_double exact k = of_int k"
  by (simp_all add: dadd_def dsub_def dmul_def int_to_double_def exact_def)

lemma step_width_exact: "step_width exact n = 1 / of_int n"
  by (simp add: step_width_def exact_def)

lemma kernel_midpoint_exact:
  "kernel_at exact (midpoint exact h i) = 4 / (1 + (h * (of_int i - 1 / 2))\<^sup>2)"
  by (simp add: kernel_at_def midpoint_def exact_def power2_eq_square)

lemma foldl_add_sum_list:
  fixes f :: "int \<Rightarrow> rat"
  shows "foldl (\<lambda>s i. s + f i) a xs = a + sum_list (map f xs)"
  by (induction xs arbitrary: a) (simp_all add: add.assoc)

lemma kernel_sum_exact:
  "kernel_sum exact h 0 (strided i n p) =
     (\<Sum>j \<in> set (strided i n p). 4 / (1 + (h * (of_int j - 1 / 2))\<^sup>2))"
  by (simp add: kernel_sum_def kernel_midpoint_exact foldl_add_sum_list
      sum_list_distinct_conv_sum_set [OF distinct_strided])

lemma scaled_once_exact:
  "scaled_once exact n r p =
     1 / of_int n * (\<Sum>j \<in> set (strided (r + 1) n p). 4 / (1 + (1 / of_int n * (of_int j - 1 / 2))\<^sup>2))"
  by (simp add: scaled_once_def kernel_sum_exact step_width_exact)

lemma partialSum_exact:
  "partialSum exact n r p =
     (\<Sum>j \<in> set (strided (r + 1) n p).
        1 / of_int n * (4 / (1 + (1 / of_int n * (of_int j - 1 / 2))\<^sup>2)))"
  by (simp add: partialSum_def Let_def kernel_midpoint_exact step_width_exact foldl_add_sum_list
      sum_list_distinct_conv_sum_set [OF distinct_strided])

lemma scaled_once_eq_partialSum_exact: "scaled_once exact n r p = partialSum exact n r p"
  by (simp only: scaled_once_exact partialSum_exact sum_distrib_left)

lemma reduce_sum_ranks:
  "reduce_sum exact sch ps = (\<Sum>r \<leftarrow> ranks_of sch. if r < length ps then ps ! r else 0)"
  by (induction sch) (simp_all add: dadd_def exact_def)

lemma schedule_ofD:
  assumes "schedule_of p sch"
  shows "distinct (ranks_of sch)" "set (ranks_of sch) = {0..<p}" "length (ranks_of sch) = p"
proof -
  show d: "distinct (ranks_of sch)" and s: "set (ranks_of sch) = {0..<p}"
    using assms by (simp_all add: schedule_of_def)
  have "length (ranks_of sch) = card (set (ranks_of sch))"
    by (rule distinct_card [OF d, symmetric])
  then show "length (ranks_of sch) = p" by (simp add: s)
qed

lemma schedule_of_single:
  assumes "schedule_of 1 sch"
  shows "sch = Rank 0"
proof (cases sch)
  case (Rank r)
  with schedule_ofD(2) [OF assms] show ?thesis by simp
next
  case (Combine a b)
  have "ranks_of a \<noteq> []" "ranks_of b \<noteq> []" by (induction a, simp_all) (induction b, simp_all)
  then have "2 \<le> length (ranks_of sch)"
    by (cases "ranks_of a"; cases "ranks_of b") (simp_all add: Combine)
  with schedule_ofD(3) [OF assms] show ?thesis by simp
qed

lemma reduce_sum_exact:
  assumes "schedule_of (length ps) sch"
  shows "reduce_sum exact sch ps = sum_list ps"
proof -
  note s = schedule_ofD [OF assms]
  have "reduce_sum exact sch ps = (\<Sum>r \<leftarrow> ranks_of sch. if r < length ps then ps ! r else 0)"
    by (rule reduce_sum_ranks)
  also have "\<dots> = (\<Sum>r \<in> set (ranks_of sch). if r < length ps then ps ! r else 0)"
    by (rule sum_list_distinct_conv_sum_set [OF s(1)])
  also have "\<dots> = (\<Sum>r = 0..<length ps. ps ! r)"
    by (simp add: s(2))
  also have "\<dots> = sum_list ps"
    by (simp add: sum_list_sum_nth)
  finally show ?thesis .
qed

lemma strided_all: "set (strided 1 n 1) = {1..n}"
  by (auto simp: set_strided)

lemma sum_over_ranks:
  fixes f :: "int \<Rightarrow> rat"
  assumes "0 < p"
  shows "(\<Sum>r = 0..<p. \<Sum>j \<in> set (strided (int r + 1) n (int p)). f j) = (\<Sum>j \<in> {1..n}. f j)"
proof -
  have inj: "inj_on int {0..<p}" by simp
  have img: "int ` {0..<p} = {0..<int p}"
    by (auto simp: image_iff) (metis atLeastLessThan_iff nat_less_iff zero_le nat_int nat_0_le)
  have "(\<Sum>r = 0..<p. \<Sum>j \<in> set (strided (int r + 1) n (int p)). f j)
          = (\<Sum>r \<in> {0..<int p}. \<Sum>j \<in> set (strided (r + 1) n (int p)). f j)"
    using sum.reindex [OF inj, of "\<lambda>r. \<Sum>j \<in> set (strided (r + 1) n (int p)). f j"]
    by (simp add: img)
  also have "\<dots> = sum f (\<Union>r \<in> {0..<int p}. set (strided (r + 1) n (int p)))"
  proof (rule sum.UNION_disjoint [symmetric])
    show "finite {0..<int p}" by simp
    show "\<forall>r \<in> {0..<int p}. finite (set (strided (r + 1) n (int p)))" by simp
    show "\<forall>r \<in> {0..<int p}. \<forall>r' \<in> {0..<int p}. r \<noteq> r' \<longrightarrow>
            set (strided (r + 1) n (int p)) \<inter> set (strided (r' + 1) n (int p)) = {}"
    proof (intro ballI impI)
      fix r r' assume "r \<in> {0..<int p}" "r' \<in> {0..<int p}" "r \<noteq> r'"
      then show "set (strided (r + 1) n (int p)) \<inter> set (strided (r' + 1) n (int p)) = {}"
        using assms by (intro strided_disjoint) simp_all
    qed
  qed
  also have "\<dots> = sum f {1..n}"
    using strided_cover [of "int p" n] assms by simp
  finally show ?thesis .
qed

lemma total_exact:
  assumes "0 < p" "schedule_of p sch"
  shows "reduce_sum exact sch (map (\<lambda>r. scaled_once exact n (int r) (int p)) [0..<p]) =
           scaled_once exact n 0 1"
proof -
  let ?f = "\<lambda>j. 4 / (1 + (1 / rat_of_int n * (of_int j - 1 / 2))\<^sup>2)"
  have "reduce_sum exact sch (map (\<lambda>r. scaled_once exact n (int r) (int p)) [0..<p])
          = (\<Sum>r = 0..<p. scaled_once exact n (int r) (int p))"
    using assms(2) by (simp add: reduce_sum_exact interv_sum_list_conv_sum_set_nat)
  also have "\<dots> = 1 / of_int n * (\<Sum>r = 0..<p. \<Sum>j \<in> set (strided (int r + 1) n (int p)). ?f j)"
    by (simp only: scaled_once_exact sum_distrib_left)
  also have "\<dots> = 1 / of_int n * (\<Sum>j \<in> {1..n}. ?f j)"
    by (simp only: sum_over_ranks [OF assms(1)])
  also have "\<dots> = scaled_once exact n 0 1"
    by (simp add: scaled_once_exact strided_all)
  finally show ?thesis .
qed

lemma integrate_overflow:
  assumes sp: "sign_preserving rnd"
    and "0 \<le> v_myid st" "v_myid st + 1 \<le> v_n st" "v_n st \<le> INT_MAX"
    and "0 < v_numprocs st" "INT_MAX < v_n st + v_numprocs st"
    and "(v_n st - (v_myid st + 1)) mod v_numprocs st = 0"
  shows "integrate rnd st = Inl SignedOverflow"
proof -
  have n: "v_n st \<noteq> 0" using assms(2,3) by simp
  have a: "add_int (v_myid st) 1 = Inr (v_myid st + 1)"
    using assms(2-4) by (simp add: add_int_def INT_MIN_def)
  have "for_loop (kernel_step rnd) (v_myid st + 1) (v_n st) (v_numprocs st)
          (st\<lparr>v_h := step_width rnd (v_n st), v_sum := 0\<rparr>) = Some (Inl SignedOverflow)"
  proof (rule for_loop_overflow [OF assms(5,3,4,6,7)])
    show "INT_MIN \<le> v_myid st + 1" using assms(2) by (simp add: INT_MIN_def)
    show "\<exists>s'. kernel_step rnd j s = Inr s'" for j s
      by (simp add: kernel_step_eq [OF sp])
  qed
  then show ?thesis by (simp add: integrate_unfold [OF sp n] a)
qed

lemma main_round_overflow:
  assumes sp: "sign_preserving rnd" and p: "1 \<le> p"
    and m: "main rnd p junk ins = Inr (AwaitingInput g out)"
    and r: "r < p" "int r + 1 \<le> n" "n \<le> INT_MAX" "INT_MAX < n + int p"
      "(n - (int r + 1)) mod int p = 0"
  shows "main rnd p junk (ins @ (n, clk, sch) # rest) = Inl SignedOverflow"
proof -
  note w = main_reached [OF p m]
  have n: "n \<noteq> 0" using r(2) by simp
  have k: "r < length g" using r(1) w(2) by simp
  let ?st = "(g ! r)\<lparr>v_n := n, v_t0 := fst (clk r)\<rparr>"
  have id: "v_myid ?st = int r" "v_n ?st = n" "v_numprocs ?st = int p"
    using wf_groupD(3,4) [OF w(1) k] w(2) by simp_all
  have ov: "integrate rnd ?st = Inl SignedOverflow"
    by (rule integrate_overflow [OF sp]) (use r p in \<open>simp_all add: id\<close>)
  show ?thesis
  proof (cases "one_round rnd n clk sch g")
    case (Inl e)
    with one_round_error_kind(2) [OF w(1) Inl sp] show ?thesis
      by (simp add: main_snoc [OF m])
  next
    case (Inr res)
    obtain b g' new where "res = (b, g', new)" by (cases res)
    with Inr have o: "one_round rnd n clk sch g = Inr (b, g', new)" by simp
    from one_round_continue(5) [OF w(1) n o k] ov show ?thesis by simp
  qed
qed

lemma rint_nearest:
  assumes "of_int m - 1 / 2 < q" "q < of_int m + 1 / 2"
  shows "rint q = m"
proof (cases "of_int m \<le> q")
  case True
  then have "\<lfloor>q\<rfloor> = m" using assms by (intro floor_unique) simp_all
  then show ?thesis using assms by (simp add: rint_def Let_def)
next
  case False
  then have f: "\<lfloor>q\<rfloor> = m - 1" using assms by (intro floor_unique) simp_all
  have "1 / 2 < q - of_int (m - 1)" using assms by simp
  then show ?thesis using f by (simp add: rint_def Let_def)
qed

lemma rint_tie:
  assumes "q = of_int f + 1 / 2"
  shows "rint q = (if even f then f else f + 1)"
proof -
  have "\<lfloor>q\<rfloor> = f" unfolding assms by (intro floor_unique) simp_all
  then show ?thesis by (simp add: rint_def Let_def assms)
qed

lemma binary64_eq:
  assumes "0 < q" "2 powi e \<le> q" "q < 2 powi (e + 1)"
  shows "binary64 q = of_int (rint (q * 2 powi (52 - e))) * 2 powi (e - 52)"
  using assms(1) ilog2_unique [OF assms] by (simp add: binary64_def Let_def)

lemma binary64_evalI:
  assumes "0 < q" "2 powi e \<le> q" "q < 2 powi (e + 1)"
    and "of_int m - 1 / 2 < q * 2 powi (52 - e)" "q * 2 powi (52 - e) < of_int m + 1 / 2"
    and "c = of_int m * 2 powi (e - 52)"
  shows "binary64 q = c"
  using binary64_eq [OF assms(1-3)] rint_nearest [OF assms(4,5)] assms(6) by simp

lemma binary64_tieI:
  assumes "0 < q" "2 powi e \<le> q" "q < 2 powi (e + 1)"
    and "q * 2 powi (52 - e) = of_int f + 1 / 2"
    and "c = of_int (if even f then f else f + 1) * 2 powi (e - 52)"
  shows "binary64 q = c"
  using binary64_eq [OF assms(1-3)] rint_tie [OF assms(4)] assms(5) by simp

lemma b64_1: "binary64 (5) = 5"
  by (rule binary64_evalI [where e = "2" and m = "5629499534213120"]) simp_all

lemma b64_2: "binary64 (1 / 5) = 3602879701896397 / 18014398509481984"
  by (rule binary64_evalI [where e = "-3" and m = "7205759403792794"]) simp_all

lemma b64_3: "binary64 (2) = 2"
  by (rule binary64_evalI [where e = "1" and m = "4503599627370496"]) simp_all

lemma b64_4: "binary64 (3 / 2) = 3 / 2"
  by (rule binary64_evalI [where e = "0" and m = "6755399441055744"]) simp_all

lemma b64_5: "binary64 (10808639105689191 / 36028797018963968) = 1351079888211149 / 4503599627370496"
  by (rule binary64_tieI [where e = "-2" and f = "5404319552844595"]) simp_all

lemma b64_6: "binary64 (1825416864328650878587207900201 / 20282409603651670423947251286016) = 1621295865853379 / 18014398509481984"
  by (rule binary64_evalI [where e = "-4" and m = "6485183463413516"]) simp_all

lemma b64_7: "binary64 (19635694375335363 / 18014398509481984) = 4908923593833841 / 4503599627370496"
  by (rule binary64_evalI [where e = "0" and m = "4908923593833841"]) simp_all

lemma b64_8: "binary64 (18014398509481984 / 4908923593833841) = 8263485554808249 / 2251799813685248"
  by (rule binary64_evalI [where e = "1" and m = "8263485554808249"]) simp_all

lemma b64_9: "binary64 (8263485554808249 / 2251799813685248) = 8263485554808249 / 2251799813685248"
  by (rule binary64_evalI [where e = "1" and m = "8263485554808249"]) simp_all

lemma b64_10: "binary64 (4) = 4"
  by (rule binary64_evalI [where e = "2" and m = "4503599627370496"]) simp_all

lemma b64_11: "binary64 (7 / 2) = 7 / 2"
  by (rule binary64_evalI [where e = "1" and m = "7881299347898368"]) simp_all

lemma b64_12: "binary64 (25220157913274779 / 36028797018963968) = 6305039478318695 / 9007199254740992"
  by (rule binary64_evalI [where e = "-1" and m = "6305039478318695"]) simp_all

lemma b64_13: "binary64 (39753522823157281596983986503025 / 81129638414606681695789005144064) = 4413527634823087 / 9007199254740992"
  by (rule binary64_evalI [where e = "-2" and m = "8827055269646174"]) simp_all

lemma b64_14: "binary64 (13420726889564079 / 9007199254740992) = 838795430597755 / 562949953421312"
  by (rule binary64_tieI [where e = "0" and f = "6710363444782039"]) simp_all

lemma b64_15: "binary64 (2251799813685248 / 838795430597755) = 1511275042741777 / 562949953421312"
  by (rule binary64_evalI [where e = "1" and m = "6045100170967108"]) simp_all

lemma b64_16: "binary64 (14308585725775357 / 2251799813685248) = 3577146431443839 / 562949953421312"
  by (rule binary64_tieI [where e = "2" and f = "7154292862887678"]) simp_all

lemma b64_17: "binary64 (12888028268560138984319101948083 / 10141204801825835211973625643008) = 5723434290310143 / 4503599627370496"
  by (rule binary64_evalI [where e = "0" and m = "5723434290310143"]) simp_all

lemma b64_18: "binary64 (29772344372332726930326998978853 / 40564819207303340847894502572032) = 826348555480825 / 1125899906842624"
  by (rule binary64_evalI [where e = "-1" and m = "6610788443846600"]) simp_all

lemma b64_19: "binary64 (826348555480825 / 1125899906842624) = 826348555480825 / 1125899906842624"
  by (rule binary64_evalI [where e = "-1" and m = "6610788443846600"]) simp_all

lemma b64_20: "binary64 (5444942175476958152457277677469 / 10141204801825835211973625643008) = 4836080136773687 / 9007199254740992"
  by (rule binary64_evalI [where e = "-1" and m = "4836080136773687"]) simp_all

lemma b64_21: "binary64 (11446868580620287 / 9007199254740992) = 5589291299131 / 4398046511104"
  by (rule binary64_tieI [where e = "0" and f = "5723434290310143"]) simp_all

lemmas b64 = b64_1 b64_2 b64_3 b64_4 b64_5 b64_6 b64_7 b64_8 b64_9 b64_10 b64_11 b64_12 b64_13
  b64_14 b64_15 b64_16 b64_17 b64_18 b64_19 b64_20 b64_21

lemma strided_2_5_2: "strided 2 5 2 = [2, 4]"
  by (simp add: strided.simps)

lemma scaled_once_5_1_2: "scaled_once binary64 5 1 2 = 5723434290310143 / 4503599627370496"
  by (simp add: scaled_once_def step_width_def kernel_sum_def kernel_at_def midpoint_def
      dadd_def dsub_def dmul_def int_to_double_def strided_2_5_2 b64)

lemma partialSum_5_1_2: "partialSum binary64 5 1 2 = 5589291299131 / 4398046511104"
  by (simp add: partialSum_def step_width_def kernel_at_def midpoint_def Let_def
      dadd_def dsub_def dmul_def int_to_double_def strided_2_5_2 b64)

lemma main_start: "main rnd p junk [] = Inr (AwaitingInput (startup p junk) [])"
  by (simp add: main_def rounds.simps)

lemma main_snoc_last:
  assumes "1 \<le> p" "main rnd p junk ins = Inr (AwaitingInput g out)"
  shows "main rnd p junk (ins @ [(v, clk, sch)]) =
           (case one_round rnd v clk sch g of
              Inl e \<Rightarrow> Inl e
            | Inr (True, g', new) \<Rightarrow> Inr (Exited (map (\<lambda>st. 0) g') (MPI_Finalize g') (out @ new))
            | Inr (False, g', new) \<Rightarrow> Inr (AwaitingInput g' (out @ new)))"
proof (cases "one_round rnd v clk sch g")
  case (Inl e)
  then show ?thesis by (simp add: main_snoc [OF assms(2)])
next
  case (Inr res)
  obtain b g' new where res: "res = (b, g', new)" by (cases res)
  have "wf_group g'"
    by (rule one_round_wf(1) [OF main_reached(1) [OF assms] Inr [unfolded res]])
  then show ?thesis
    using Inr res by (cases b) (simp_all add: main_snoc [OF assms(2)])
qed

lemma owned_indices_strided:
  assumes "0 < p" "0 \<le> r" "r < p" "0 \<le> n" "n + p \<le> INT_MAX"
  shows "owned_indices n r p = strided (r + 1) n p"
  using owned_strided [OF assms] by (simp add: owned_indices_def)

section \<open>The order of the additions matters on doubles\<close>

text \<open>
  For \<open>n = 6\<close> on four processes in binary64, adding the partial results in the order of
  the ranks and adding them pairwise give totals that differ in the last place. The
  lemmas \<open>c64\<close> are the roundings of the four integration steps and of the two
  reductions, one by one.
\<close>

lemma c64_1: "binary64 (6) = 6"
  by (rule binary64_evalI [where e = "2" and m = "6755399441055744"]) simp_all

lemma c64_2: "binary64 (1 / 6) = 6004799503160661 / 36028797018963968"
  by (rule binary64_evalI [where e = "-3" and m = "6004799503160661"]) simp_all

lemma c64_3: "binary64 (1) = 1"
  by (rule binary64_evalI [where e = "0" and m = "4503599627370496"]) simp_all

lemma c64_4: "binary64 (1 / 2) = 1 / 2"
  by (rule binary64_evalI [where e = "-1" and m = "4503599627370496"]) simp_all

lemma c64_5: "binary64 (6004799503160661 / 72057594037927936) = 6004799503160661 / 72057594037927936"
  by (rule binary64_evalI [where e = "-4" and m = "6004799503160661"]) simp_all

lemma c64_6: "binary64 (36057617073158521194928777956921 / 5192296858534827628530496329220096) = 2001599834386887 / 288230376151711744"
  by (rule binary64_evalI [where e = "-8" and m = "8006399337547548"]) simp_all

lemma c64_7: "binary64 (290231975986098631 / 288230376151711744) = 4534874624782791 / 4503599627370496"
  by (rule binary64_evalI [where e = "0" and m = "4534874624782791"]) simp_all

lemma c64_8: "binary64 (18014398509481984 / 4534874624782791) = 4472540319595527 / 1125899906842624"
  by (rule binary64_evalI [where e = "1" and m = "8945080639191054"]) simp_all

lemma c64_9: "binary64 (4472540319595527 / 1125899906842624) = 4472540319595527 / 1125899906842624"
  by (rule binary64_evalI [where e = "1" and m = "8945080639191054"]) simp_all

lemma c64_10: "binary64 (5) = 5"
  by (rule binary64_evalI [where e = "2" and m = "5629499534213120"]) simp_all

lemma c64_11: "binary64 (9 / 2) = 9 / 2"
  by (rule binary64_evalI [where e = "2" and m = "5066549580791808"]) simp_all

lemma c64_12: "binary64 (54043195528445949 / 72057594037927936) = 3 / 4"
  by (rule binary64_evalI [where e = "-1" and m = "6755399441055744"]) simp_all

lemma c64_13: "binary64 (9 / 16) = 9 / 16"
  by (rule binary64_evalI [where e = "-1" and m = "5066549580791808"]) simp_all

lemma c64_14: "binary64 (25 / 16) = 25 / 16"
  by (rule binary64_evalI [where e = "0" and m = "7036874417766400"]) simp_all

lemma c64_15: "binary64 (64 / 25) = 5764607523034235 / 2251799813685248"
  by (rule binary64_evalI [where e = "1" and m = "5764607523034235"]) simp_all

lemma c64_16: "binary64 (14709688162225289 / 2251799813685248) = 1838711020278161 / 281474976710656"
  by (rule binary64_tieI [where e = "2" and f = "7354844081112644"]) simp_all

lemma c64_17: "binary64 (11041091021022333245782892624421 / 10141204801825835211973625643008) = 4903229387408429 / 4503599627370496"
  by (rule binary64_evalI [where e = "0" and m = "4903229387408429"]) simp_all

lemma c64_18: "binary64 (2) = 2"
  by (rule binary64_evalI [where e = "1" and m = "4503599627370496"]) simp_all

lemma c64_19: "binary64 (3 / 2) = 3 / 2"
  by (rule binary64_evalI [where e = "0" and m = "6755399441055744"]) simp_all

lemma c64_20: "binary64 (18014398509481983 / 72057594037927936) = 1 / 4"
  by (rule binary64_tieI [where e = "-3" and f = "9007199254740991"]) simp_all

lemma c64_21: "binary64 (1 / 16) = 1 / 16"
  by (rule binary64_evalI [where e = "-4" and m = "4503599627370496"]) simp_all

lemma c64_22: "binary64 (17 / 16) = 17 / 16"
  by (rule binary64_evalI [where e = "0" and m = "4785074604081152"]) simp_all

lemma c64_23: "binary64 (64 / 17) = 4238682002231055 / 1125899906842624"
  by (rule binary64_evalI [where e = "1" and m = "8477364004462110"]) simp_all

lemma c64_24: "binary64 (4238682002231055 / 1125899906842624) = 4238682002231055 / 1125899906842624"
  by (rule binary64_evalI [where e = "1" and m = "8477364004462110"]) simp_all

lemma c64_25: "binary64 (11 / 2) = 11 / 2"
  by (rule binary64_evalI [where e = "2" and m = "6192449487634432"]) simp_all

lemma c64_26: "binary64 (66052794534767271 / 72057594037927936) = 8256599316845909 / 9007199254740992"
  by (rule binary64_evalI [where e = "-1" and m = "8256599316845909"]) simp_all

lemma c64_27: "binary64 (68171432278940331198312050036281 / 81129638414606681695789005144064) = 946068671721927 / 1125899906842624"
  by (rule binary64_evalI [where e = "-1" and m = "7568549373775416"]) simp_all

lemma c64_28: "binary64 (2071968578564551 / 1125899906842624) = 2071968578564551 / 1125899906842624"
  by (rule binary64_evalI [where e = "0" and m = "8287874314258204"]) simp_all

lemma c64_29: "binary64 (4503599627370496 / 2071968578564551) = 4894478085595105 / 2251799813685248"
  by (rule binary64_evalI [where e = "1" and m = "4894478085595105"]) simp_all

lemma c64_30: "binary64 (13371842090057215 / 2251799813685248) = 26116879082143 / 4398046511104"
  by (rule binary64_tieI [where e = "2" and f = "6685921045028607"]) simp_all

lemma c64_31: "binary64 (156826622536559346485145176523 / 158456325028528675187087900672) = 8914561393371477 / 9007199254740992"
  by (rule binary64_evalI [where e = "-1" and m = "8914561393371477"]) simp_all

lemma c64_32: "binary64 (3) = 3"
  by (rule binary64_evalI [where e = "1" and m = "6755399441055744"]) simp_all

lemma c64_33: "binary64 (5 / 2) = 5 / 2"
  by (rule binary64_evalI [where e = "1" and m = "5629499534213120"]) simp_all

lemma c64_34: "binary64 (30023997515803305 / 72057594037927936) = 3752999689475413 / 9007199254740992"
  by (rule binary64_evalI [where e = "-2" and m = "7505999378950826"]) simp_all

lemma c64_35: "binary64 (14085006669202546403519131520569 / 81129638414606681695789005144064) = 6254999482459021 / 36028797018963968"
  by (rule binary64_evalI [where e = "-3" and m = "6254999482459021"]) simp_all

lemma c64_36: "binary64 (42283796501422989 / 36028797018963968) = 2642737281338937 / 2251799813685248"
  by (rule binary64_evalI [where e = "0" and m = "5285474562677874"]) simp_all

lemma c64_37: "binary64 (9007199254740992 / 2642737281338937) = 959346666185431 / 281474976710656"
  by (rule binary64_evalI [where e = "1" and m = "7674773329483448"]) simp_all

lemma c64_38: "binary64 (959346666185431 / 281474976710656) = 959346666185431 / 281474976710656"
  by (rule binary64_evalI [where e = "1" and m = "7674773329483448"]) simp_all

lemma c64_39: "binary64 (5760684384469112569376810529891 / 10141204801825835211973625643008) = 5116515552988965 / 9007199254740992"
  by (rule binary64_evalI [where e = "-1" and m = "5116515552988965"]) simp_all

lemma c64_40: "binary64 (4) = 4"
  by (rule binary64_evalI [where e = "2" and m = "4503599627370496"]) simp_all

lemma c64_41: "binary64 (7 / 2) = 7 / 2"
  by (rule binary64_evalI [where e = "1" and m = "7881299347898368"]) simp_all

lemma c64_42: "binary64 (42033596522124627 / 72057594037927936) = 2627099782632789 / 4503599627370496"
  by (rule binary64_evalI [where e = "-1" and m = "5254199565265578"]) simp_all

lemma c64_43: "binary64 (6901653267909247212304417918521 / 20282409603651670423947251286016) = 383118718300615 / 1125899906842624"
  by (rule binary64_evalI [where e = "-2" and m = "6129899492809840"]) simp_all

lemma c64_44: "binary64 (1509018625143239 / 1125899906842624) = 1509018625143239 / 1125899906842624"
  by (rule binary64_evalI [where e = "0" and m = "6036074500572956"]) simp_all

lemma c64_45: "binary64 (4503599627370496 / 1509018625143239) = 6720397371412969 / 2251799813685248"
  by (rule binary64_evalI [where e = "1" and m = "6720397371412969"]) simp_all

lemma c64_46: "binary64 (6720397371412969 / 2251799813685248) = 6720397371412969 / 2251799813685248"
  by (rule binary64_evalI [where e = "1" and m = "6720397371412969"]) simp_all

lemma c64_47: "binary64 (40354638796902808421042986012509 / 81129638414606681695789005144064) = 8960529828550625 / 18014398509481984"
  by (rule binary64_evalI [where e = "-2" and m = "8960529828550625"]) simp_all

lemma c64_48: "binary64 (18721020168188335 / 9007199254740992) = 1170063760511771 / 562949953421312"
  by (rule binary64_evalI [where e = "1" and m = "4680255042047084"]) simp_all

lemma c64_49: "binary64 (23837535721177301 / 9007199254740992) = 5959383930294325 / 2251799813685248"
  by (rule binary64_evalI [where e = "1" and m = "5959383930294325"]) simp_all

lemma c64_50: "binary64 (56635601270905225 / 18014398509481984) = 7079450158863153 / 2251799813685248"
  by (rule binary64_evalI [where e = "1" and m = "7079450158863153"]) simp_all

lemma c64_51: "binary64 (19193560934528555 / 18014398509481984) = 4798390233632139 / 4503599627370496"
  by (rule binary64_evalI [where e = "0" and m = "4798390233632139"]) simp_all

lemma c64_52: "binary64 (14158900317726307 / 4503599627370496) = 3539725079431577 / 1125899906842624"
  by (rule binary64_tieI [where e = "1" and f = "7079450158863153"]) simp_all

lemmas c64 = c64_1 c64_2 c64_3 c64_4 c64_5 c64_6 c64_7 c64_8 c64_9 c64_10 c64_11 c64_12 c64_13 c64_14 c64_15
  c64_16 c64_17 c64_18 c64_19 c64_20 c64_21 c64_22 c64_23 c64_24 c64_25 c64_26 c64_27 c64_28
  c64_29 c64_30 c64_31 c64_32 c64_33 c64_34 c64_35 c64_36 c64_37 c64_38 c64_39 c64_40 c64_41
  c64_42 c64_43 c64_44 c64_45 c64_46 c64_47 c64_48 c64_49 c64_50 c64_51 c64_52

lemma strided_6_4:
  "strided 1 6 4 = [1, 5]" "strided 2 6 4 = [2, 6]" "strided 3 6 4 = [3]" "strided 4 6 4 = [4]"
  by (simp_all add: strided.simps)

lemma scaled_once_6_4:
  "scaled_once binary64 6 0 4 = 4903229387408429 / 4503599627370496"
  "scaled_once binary64 6 1 4 = 8914561393371477 / 9007199254740992"
  "scaled_once binary64 6 2 4 = 5116515552988965 / 9007199254740992"
  "scaled_once binary64 6 3 4 = 8960529828550625 / 18014398509481984"
  by (simp_all add: scaled_once_def step_width_def kernel_sum_def kernel_at_def midpoint_def
      dadd_def dsub_def dmul_def int_to_double_def strided_6_4 c64)

lemma upt_4: "[0..<4] = [0, 1, 2, 3]"
  by (simp add: upt_rec)

lemma reduce_sum_6_4:
  "reduce_sum binary64 (Combine (Combine (Combine (Rank 0) (Rank 1)) (Rank 2)) (Rank 3))
     (map (\<lambda>r. scaled_once binary64 6 (int r) (int 4)) [0..<4]) =
     7079450158863153 / 2251799813685248"
  "reduce_sum binary64 (Combine (Combine (Rank 0) (Rank 1)) (Combine (Rank 2) (Rank 3)))
     (map (\<lambda>r. scaled_once binary64 6 (int r) (int 4)) [0..<4]) =
     7079450158863154 / 2251799813685248"
  by (simp_all add: upt_4 scaled_once_6_4 dadd_def c64)

lemma schedule_matters:
  "\<exists>g rep g' rep'.
     main binary64 4 (\<lambda>r. blank)
       [(6, \<lambda>r. (0, 1), Combine (Combine (Combine (Rank 0) (Rank 1)) (Rank 2)) (Rank 3))] =
       Inr (AwaitingInput g [rep]) \<and>
     main binary64 4 (\<lambda>r. blank)
       [(6, \<lambda>r. (0, 1), Combine (Combine (Rank 0) (Rank 1)) (Combine (Rank 2) (Rank 3)))] =
       Inr (AwaitingInput g' [rep']) \<and>
     approximation rep = 7079450158863153 / 2251799813685248 \<and>
     approximation rep' = 7079450158863154 / 2251799813685248"
proof -
  let ?a = "Combine (Combine (Combine (Rank 0) (Rank 1)) (Rank 2)) (Rank 3)"
  let ?b = "Combine (Combine (Rank 0) (Rank 1)) (Combine (Rank 2) (Rank 3))"
  from main_round_closed [where p = 4 and n = 6 and junk = "\<lambda>r. blank" and ins = "[]"
      and clk = "\<lambda>r. (0, 1)" and sch = ?a, OF sign_preserving_binary64 _ _ _ _ main_start]
  obtain g rep where a:
    "main binary64 4 (\<lambda>r. blank) ([] @ [(6, \<lambda>r. (0, 1), ?a)]) = Inr (AwaitingInput g ([] @ [rep]))"
    "v_pi (g ! 0) = reduce_sum binary64 ?a (map (\<lambda>r. scaled_once binary64 6 (int r) (int 4)) [0..<4])"
    "approximation rep = v_pi (g ! 0)"
    by (auto simp: INT_MAX_def)
  from main_round_closed [where p = 4 and n = 6 and junk = "\<lambda>r. blank" and ins = "[]"
      and clk = "\<lambda>r. (0, 1)" and sch = ?b, OF sign_preserving_binary64 _ _ _ _ main_start]
  obtain g' rep' where b:
    "main binary64 4 (\<lambda>r. blank) ([] @ [(6, \<lambda>r. (0, 1), ?b)]) = Inr (AwaitingInput g' ([] @ [rep']))"
    "v_pi (g' ! 0) = reduce_sum binary64 ?b (map (\<lambda>r. scaled_once binary64 6 (int r) (int 4)) [0..<4])"
    "approximation rep' = v_pi (g' ! 0)"
    by (auto simp: INT_MAX_def)
  have "approximation rep = 7079450158863153 / 2251799813685248"
    unfolding a(3) a(2) by (rule reduce_sum_6_4(1))
  moreover have "approximation rep' = 7079450158863154 / 2251799813685248"
    unfolding b(3) b(2) by (rule reduce_sum_6_4(2))
  ultimately show ?thesis
    using a(1) b(1)
    by (intro exI [of _ g] exI [of _ rep] exI [of _ g'] exI [of _ rep']) simp
qed

section \<open>The loop counter of one rank\<close>

text \<open>
  The loop of a rank returns exactly when \<^verbatim>\<open>i += numprocs\<close> stays in the range of \<^verbatim>\<open>int\<close>
  after every index the rank visits; otherwise the addition after the last index
  overflows. The bound concerns the rank alone: in a group some ranks can finish their
  loops while the rank that owns the last indices overflows.
\<close>

lemma for_loop_strided_bound:
  assumes "0 < p" "INT_MIN \<le> i" "\<forall>j \<in> set (strided i n p). j + p \<le> INT_MAX"
  shows "for_loop body i n p s =
           Some (case fold_err body (strided i n p) s of
                   Inl e \<Rightarrow> Inl e
                 | Inr s' \<Rightarrow> Inr (i + int (length (strided i n p)) * p, s'))"
  using assms
proof (induction i n p arbitrary: s rule: strided.induct)
  case (1 i n p)
  show ?case
  proof (cases "i \<le> n")
    case True
    have unf: "strided i n p = i # strided (i + p) n p"
      using True "1.prems" by (subst strided.simps) simp
    have add: "add_int i p = Inr (i + p)"
      using "1.prems" unf by (simp add: add_int_def)
    show ?thesis
    proof (cases "body i s")
      case (Inl e)
      then show ?thesis using True unf by (subst for_loop.simps) simp
    next
      case (Inr s')
      have "for_loop body (i + p) n p s' =
              Some (case fold_err body (strided (i + p) n p) s' of
                      Inl e \<Rightarrow> Inl e
                    | Inr s'' \<Rightarrow> Inr (i + p + int (length (strided (i + p) n p)) * p, s''))"
        using "1.IH" [of s'] True "1.prems" unf by simp
      then show ?thesis
        using True unf add Inr
        by (subst for_loop.simps) (simp add: algebra_simps split: sum.splits)
    qed
  next
    case False
    then have "strided i n p = []" by (subst strided.simps) simp
    with False show ?thesis by (subst for_loop.simps) simp
  qed
qed

lemma for_loop_overflow_bound:
  assumes "0 < p" "n \<le> INT_MAX" "INT_MIN \<le> i" "\<exists>j \<in> set (strided i n p). INT_MAX < j + p"
    and total: "\<And>j s. \<exists>s'. body j s = Inr s'"
  shows "for_loop body i n p s = Some (Inl SignedOverflow)"
  using assms(1-4)
proof (induction i n p arbitrary: s rule: strided.induct)
  case (1 i n p)
  obtain s' where b: "body i s = Inr s'" using total by blast
  have le: "i \<le> n"
  proof (rule ccontr)
    assume "\<not> i \<le> n"
    then have "strided i n p = []" by (simp add: strided_Nil)
    with "1.prems"(4) show False by simp
  qed
  have unf: "strided i n p = i # strided (i + p) n p"
    using le "1.prems"(1) by (rule strided_Cons)
  show ?case
  proof (cases "INT_MAX < i + p")
    case True
    then have "add_int i p = Inl SignedOverflow" by (simp add: add_int_def)
    then show ?thesis using b le by (subst for_loop.simps) simp
  next
    case False
    then have add: "add_int i p = Inr (i + p)"
      using "1.prems" by (simp add: add_int_def)
    from "1.prems"(4) False have "\<exists>j \<in> set (strided (i + p) n p). INT_MAX < j + p"
      by (auto simp: unf)
    then have "for_loop body (i + p) n p s' = Some (Inl SignedOverflow)"
      using "1.IH" [of s'] "1.prems" le by simp
    then show ?thesis using b add le by (subst for_loop.simps) simp
  qed
qed

lemma owned_strided_bound:
  assumes "0 < p" "0 \<le> r" "r < p" "p \<le> INT_MAX"
    and "\<forall>j \<in> set (strided (r + 1) n p). j + p \<le> INT_MAX"
  shows "owned n r p = Some (Inr (strided (r + 1) n p))"
proof -
  have "r + 1 \<le> INT_MAX" "INT_MIN \<le> r + 1" using assms by (auto simp: INT_MAX_def INT_MIN_def)
  then have a: "add_int r 1 = Inr (r + 1)" by (simp add: add_int_def)
  show ?thesis
    using for_loop_strided_bound [OF assms(1) \<open>INT_MIN \<le> r + 1\<close> assms(5),
        of "\<lambda>i xs. Inr (xs @ [i])" "[]"]
    by (simp add: owned_def a fold_err_snoc)
qed

lemma integrate_closed_bound:
  assumes sp: "sign_preserving rnd" and n: "v_n st \<noteq> 0"
    and r: "0 \<le> v_myid st" "v_myid st < v_numprocs st" "v_numprocs st \<le> INT_MAX"
    and b: "\<forall>j \<in> set (strided (v_myid st + 1) (v_n st) (v_numprocs st)).
              j + v_numprocs st \<le> INT_MAX"
  shows "\<exists>st'. integrate rnd st = Inr st' \<and>
           v_h st' = step_width rnd (v_n st) \<and>
           v_sum st' = kernel_sum rnd (step_width rnd (v_n st)) 0
                         (strided (v_myid st + 1) (v_n st) (v_numprocs st)) \<and>
           v_i st' = v_myid st + 1 +
             int (length (strided (v_myid st + 1) (v_n st) (v_numprocs st))) * v_numprocs st \<and>
           v_mypi st' = scaled_once rnd (v_n st) (v_myid st) (v_numprocs st)"
proof -
  define st1 where "st1 = st\<lparr>v_h := step_width rnd (v_n st), v_sum := 0\<rparr>"
  have a: "add_int (v_myid st) 1 = Inr (v_myid st + 1)"
    using r by (simp add: add_int_def INT_MIN_def)
  have p: "0 < v_numprocs st" and lo: "INT_MIN \<le> v_myid st + 1"
    using r by (simp_all add: INT_MIN_def)
  obtain x' where f: "fold_err (kernel_step rnd) (strided (v_myid st + 1) (v_n st) (v_numprocs st)) st1 =
       Inr (st1\<lparr>v_x := x', v_sum := kernel_sum rnd (v_h st1) (v_sum st1)
                  (strided (v_myid st + 1) (v_n st) (v_numprocs st))\<rparr>)"
    using fold_kernel_step [OF sp] by blast
  have "for_loop (kernel_step rnd) (v_myid st + 1) (v_n st) (v_numprocs st) st1 =
          Some (Inr (v_myid st + 1 +
                     int (length (strided (v_myid st + 1) (v_n st) (v_numprocs st))) * v_numprocs st,
            st1\<lparr>v_x := x', v_sum := kernel_sum rnd (v_h st1) (v_sum st1)
                  (strided (v_myid st + 1) (v_n st) (v_numprocs st))\<rparr>))"
    by (simp add: for_loop_strided_bound [OF p lo b] f)
  then show ?thesis
    using a by (simp add: integrate_unfold [OF sp n] st1_def [symmetric])
       (simp add: st1_def scaled_once_def)
qed

lemma integrate_overflow_bound:
  assumes sp: "sign_preserving rnd"
    and "v_n st \<noteq> 0" "v_n st \<le> INT_MAX" "0 \<le> v_myid st" "v_myid st < v_numprocs st"
    and "v_numprocs st \<le> INT_MAX"
    and "\<exists>j \<in> set (strided (v_myid st + 1) (v_n st) (v_numprocs st)).
           INT_MAX < j + v_numprocs st"
  shows "integrate rnd st = Inl SignedOverflow"
proof -
  have a: "add_int (v_myid st) 1 = Inr (v_myid st + 1)"
    using assms(4-6) by (simp add: add_int_def INT_MIN_def)
  have p: "0 < v_numprocs st" using assms(4,5) by simp
  have "for_loop (kernel_step rnd) (v_myid st + 1) (v_n st) (v_numprocs st)
          (st\<lparr>v_h := step_width rnd (v_n st), v_sum := 0\<rparr>) = Some (Inl SignedOverflow)"
  proof (rule for_loop_overflow_bound [OF p assms(3) _ assms(7)])
    show "INT_MIN \<le> v_myid st + 1" using assms(4) by (simp add: INT_MIN_def)
    show "\<exists>s'. kernel_step rnd j s = Inr s'" for j s
      by (simp add: kernel_step_eq [OF sp])
  qed
  then show ?thesis by (simp add: integrate_unfold [OF sp assms(2)] a)
qed

section \<open>A round does not depend on the rounds before\<close>

text \<open>
  What the integration step writes: \<^verbatim>\<open>x\<close> holds the midpoint of the last index visited
  and keeps its old value when no index is visited; \<^verbatim>\<open>h\<close> is recomputed from \<^verbatim>\<open>n\<close>, and
  \<^verbatim>\<open>sum\<close> restarts from 0. Two states that agree on \<^verbatim>\<open>n\<close>, \<^verbatim>\<open>myid\<close> and \<^verbatim>\<open>numprocs\<close>
  therefore come out of the step with the same \<^verbatim>\<open>h\<close>, \<^verbatim>\<open>sum\<close>, \<^verbatim>\<open>i\<close> and \<^verbatim>\<open>mypi\<close>, or
  with the same error.
\<close>

lemma kernel_step_x:
  "kernel_step rnd i s = Inr s' \<Longrightarrow> v_x s' = midpoint rnd (v_h s) i \<and> v_h s' = v_h s"
  by (auto simp: kernel_step_def midpoint_def Let_def split: sum.splits)

lemma for_loop_last_x:
  assumes "0 < p" "for_loop (kernel_step rnd) i n p s = Some (Inr (j, s'))"
  shows "v_h s' = v_h s \<and>
         (if i \<le> n then v_x s' = midpoint rnd (v_h s) (j - p) else v_x s' = v_x s)"
  using assms
proof (induction i n p arbitrary: s rule: strided.induct)
  case (1 i n p)
  show ?case
  proof (cases "i \<le> n")
    case False
    with "1.prems"(2) show ?thesis by (simp add: for_loop_skip)
  next
    case True
    from "1.prems"(2) True obtain s1 where
      b: "kernel_step rnd i s = Inr s1" and a: "add_int i p = Inr (i + p)"
      and l: "for_loop (kernel_step rnd) (i + p) n p s1 = Some (Inr (j, s'))"
      by (subst (asm) for_loop.simps)
         (auto simp: add_int_def split: sum.splits if_splits)
    note x = kernel_step_x [OF b]
    from "1.IH" [OF _ "1.prems"(1) l] True "1.prems"(1)
    have IH: "v_h s' = v_h s1 \<and>
         (if i + p \<le> n then v_x s' = midpoint rnd (v_h s1) (j - p) else v_x s' = v_x s1)"
      by simp
    show ?thesis
    proof (cases "i + p \<le> n")
      case le: True
      with IH x True show ?thesis by simp
    next
      case False
      with l have "j = i + p" by (simp add: for_loop_skip)
      with IH x True False show ?thesis by simp
    qed
  qed
qed

lemma integrate_loop:
  assumes "integrate rnd st = Inr u"
  obtains hv j s' where
    "ddiv rnd 1 (int_to_double rnd (v_n st)) = Inr hv"
    "add_int (v_myid st) 1 = Inr (v_myid st + 1)"
    "for_loop (kernel_step rnd) (v_myid st + 1) (v_n st) (v_numprocs st)
       (st\<lparr>v_h := hv, v_sum := 0\<rparr>) = Some (Inr (j, s'))"
    "u = s'\<lparr>v_i := j, v_mypi := dmul rnd (v_h s') (v_sum s')\<rparr>"
proof -
  from assms obtain hv i0 j s' where
    d: "ddiv rnd 1 (int_to_double rnd (v_n st)) = Inr hv"
    and a: "add_int (v_myid st) 1 = Inr i0"
    and l: "for_loop (kernel_step rnd) i0 (v_n st) (v_numprocs st) (st\<lparr>v_h := hv, v_sum := 0\<rparr>)
          = Some (Inr (j, s'))"
    and u: "u = s'\<lparr>v_i := j, v_mypi := dmul rnd (v_h s') (v_sum s')\<rparr>"
    by (auto simp: integrate_def Let_def split: sum.splits option.splits)
  from a have "i0 = v_myid st + 1" by (simp add: add_int_def split: if_splits)
  with d a l u that show ?thesis by simp
qed

lemma integrate_x:
  assumes "0 < v_numprocs st" "integrate rnd st = Inr u"
  shows "if v_myid st + 1 \<le> v_n st
         then v_x u = midpoint rnd (v_h u) (v_i u - v_numprocs st)
         else v_x u = v_x st"
proof -
  from assms(2) obtain hv j s' where
    l: "for_loop (kernel_step rnd) (v_myid st + 1) (v_n st) (v_numprocs st)
       (st\<lparr>v_h := hv, v_sum := 0\<rparr>) = Some (Inr (j, s'))"
    and u: "u = s'\<lparr>v_i := j, v_mypi := dmul rnd (v_h s') (v_sum s')\<rparr>"
    by (rule integrate_loop)
  from for_loop_last_x [OF assms(1) l] show ?thesis by (simp add: u)
qed

lemma integrate_deterministic_state:
  assumes p: "0 < v_numprocs st"
    and eq: "v_n st = v_n st'" "v_myid st = v_myid st'" "v_numprocs st = v_numprocs st'"
  shows "map_sum id (\<lambda>u. (v_h u, v_sum u, v_i u, v_mypi u)) (integrate rnd st) =
         map_sum id (\<lambda>u. (v_h u, v_sum u, v_i u, v_mypi u)) (integrate rnd st')"
proof (cases "ddiv rnd 1 (int_to_double rnd (v_n st))")
  case (Inl e)
  then show ?thesis using eq by (simp add: integrate_def)
next
  case (Inr hv)
  show ?thesis
  proof (cases "add_int (v_myid st) 1")
    case (Inl e)
    then show ?thesis using Inr eq by (simp add: integrate_def)
  next
    case add: (Inr i0)
    define R where "R = (\<lambda>(s :: vars) (t :: vars). v_h s = v_h t \<and> v_sum s = v_sum t)"
    define s1 where "s1 = st\<lparr>v_h := hv, v_sum := 0\<rparr>"
    define t1 where "t1 = st'\<lparr>v_h := hv, v_sum := 0\<rparr>"
    have "R s1 t1" by (simp add: R_def s1_def t1_def)
    moreover have "rel_sum (=) R (kernel_step rnd k s) (kernel_step rnd k t)" if "R s t" for k s t
      using that kernel_step_rel [of s t rnd k] by (simp add: R_def)
    ultimately obtain y z where yz:
      "for_loop (kernel_step rnd) i0 (v_n st) (v_numprocs st) s1 = Some y"
      "for_loop (kernel_step rnd) i0 (v_n st) (v_numprocs st) t1 = Some z"
      "rel_sum (=) (rel_prod (=) R) y z"
      using for_loop_rel [of "v_numprocs st" R s1 t1 "(=)" "kernel_step rnd" "kernel_step rnd" i0 "v_n st", OF p]
      by blast
    have s: "integrate rnd st =
        (case y of Inl e \<Rightarrow> Inl e
         | Inr (iend, st2) \<Rightarrow> Inr (st2\<lparr>v_i := iend, v_mypi := dmul rnd (v_h st2) (v_sum st2)\<rparr>))"
      using Inr add yz(1) by (simp add: integrate_def s1_def)
    have t: "integrate rnd st' =
        (case z of Inl e \<Rightarrow> Inl e
         | Inr (iend, st2) \<Rightarrow> Inr (st2\<lparr>v_i := iend, v_mypi := dmul rnd (v_h st2) (v_sum st2)\<rparr>))"
      using Inr add yz(2) eq by (simp add: integrate_def t1_def)
    from yz(3) show ?thesis
      unfolding s t by (cases rule: rel_sum.cases) (auto simp: R_def)
  qed
qed

lemma integrate_deterministic_x:
  assumes p: "0 < v_numprocs st"
    and eq: "v_n st = v_n st'" "v_myid st = v_myid st'" "v_numprocs st = v_numprocs st'"
    and u: "integrate rnd st = Inr u" "integrate rnd st' = Inr u'"
    and own: "v_myid st + 1 \<le> v_n st"
  shows "v_x u = v_x u'"
proof -
  from integrate_deterministic_state [OF p eq, of rnd] u
  have "v_h u = v_h u'" "v_i u = v_i u'" by simp_all
  moreover have "v_x u = midpoint rnd (v_h u) (v_i u - v_numprocs st)"
    using integrate_x [OF p u(1)] own by simp
  moreover have "v_x u' = midpoint rnd (v_h u') (v_i u' - v_numprocs st')"
    using integrate_x [of st' rnd u'] p u(2) own eq by simp
  ultimately show ?thesis using eq by simp
qed

lemma kernel_step_sum:
  "kernel_step rnd i s = Inr s' \<Longrightarrow>
     v_sum s' = dadd rnd (v_sum s) (kernel_at rnd (midpoint rnd (v_h s) i))"
  by (auto simp: kernel_step_def midpoint_def kernel_at_def ddiv_def Let_def
        split: sum.splits if_splits)

lemma for_loop_sum:
  assumes "0 < p" "for_loop (kernel_step rnd) i n p s = Some (Inr (j, s'))"
  shows "v_sum s' = kernel_sum rnd (v_h s) (v_sum s) (strided i n p)"
  using assms
proof (induction i n p arbitrary: s rule: strided.induct)
  case (1 i n p)
  show ?case
  proof (cases "i \<le> n")
    case False
    with "1.prems"(2) show ?thesis by (simp add: for_loop_skip strided_Nil kernel_sum_def)
  next
    case True
    from "1.prems"(2) True obtain s1 where
      b: "kernel_step rnd i s = Inr s1" and a: "add_int i p = Inr (i + p)"
      and l: "for_loop (kernel_step rnd) (i + p) n p s1 = Some (Inr (j, s'))"
      by (subst (asm) for_loop.simps)
         (auto simp: add_int_def split: sum.splits if_splits)
    from "1.IH" [OF _ "1.prems"(1) l] True "1.prems"(1)
    have "v_sum s' = kernel_sum rnd (v_h s1) (v_sum s1) (strided (i + p) n p)" by simp
    then show ?thesis
      using kernel_step_x [OF b] kernel_step_sum [OF b]
      by (simp add: strided_Cons [OF True "1.prems"(1)] kernel_sum_def)
  qed
qed

lemma integrate_reinitialised:
  assumes "0 < v_numprocs st" "integrate rnd st = Inr u"
  shows "ddiv rnd 1 (int_to_double rnd (v_n st)) = Inr (v_h u)"
    "v_sum u = kernel_sum rnd (v_h u) 0 (strided (v_myid st + 1) (v_n st) (v_numprocs st))"
    "v_mypi u = dmul rnd (v_h u) (v_sum u)"
proof -
  from assms(2) obtain hv j s' where
    d: "ddiv rnd 1 (int_to_double rnd (v_n st)) = Inr hv"
    and l: "for_loop (kernel_step rnd) (v_myid st + 1) (v_n st) (v_numprocs st)
       (st\<lparr>v_h := hv, v_sum := 0\<rparr>) = Some (Inr (j, s'))"
    and u: "u = s'\<lparr>v_i := j, v_mypi := dmul rnd (v_h s') (v_sum s')\<rparr>"
    by (rule integrate_loop)
  have h: "v_h s' = hv" using for_loop_last_x [OF assms(1) l] by simp
  show "ddiv rnd 1 (int_to_double rnd (v_n st)) = Inr (v_h u)" by (simp add: u h d)
  show "v_sum u = kernel_sum rnd (v_h u) 0 (strided (v_myid st + 1) (v_n st) (v_numprocs st))"
    using for_loop_sum [OF assms(1) l] by (simp add: u h)
  show "v_mypi u = dmul rnd (v_h u) (v_sum u)" by (simp add: u)
qed

text \<open>
  The same for a round of the whole group: two groups of the same size, whatever their
  memories hold, play a round with the same number read to the same error or to the same
  values of \<^verbatim>\<open>h\<close>, \<^verbatim>\<open>sum\<close>, \<^verbatim>\<open>i\<close> and \<^verbatim>\<open>mypi\<close> on every rank, even under different clocks and
  schedules; the clock of the round gives \<^verbatim>\<open>t0\<close> and \<^verbatim>\<open>t1\<close>, and the schedule gives
  \<^verbatim>\<open>pi\<close> of rank 0.
\<close>

lemma integrate_all_rel:
  assumes "length g = length h"
    and "\<And>r. r < length g \<Longrightarrow> rel_sum (=) Q (integrate rnd (g ! r)) (integrate rnd (h ! r))"
  shows "rel_sum (=) (list_all2 Q) (integrate_all rnd g) (integrate_all rnd h)"
  using assms
proof (induction g h rule: list_induct2)
  case Nil
  then show ?case by simp
next
  case (Cons s g t h)
  have hd: "rel_sum (=) Q (integrate rnd s) (integrate rnd t)"
    using Cons.prems [of 0] by simp
  have tl: "rel_sum (=) (list_all2 Q) (integrate_all rnd g) (integrate_all rnd h)"
  proof (rule Cons.IH)
    fix r assume "r < length g"
    then show "rel_sum (=) Q (integrate rnd (g ! r)) (integrate rnd (h ! r))"
      using Cons.prems [of "Suc r"] by simp
  qed
  show ?case
  proof (cases "integrate rnd s")
    case (Inl e)
    with hd have "integrate rnd t = Inl e" by (cases "integrate rnd t") simp_all
    with Inl show ?thesis by simp
  next
    case (Inr u)
    with hd obtain u' where u': "integrate rnd t = Inr u'" "Q u u'"
      by (cases "integrate rnd t") simp_all
    show ?thesis
    proof (cases "integrate_all rnd g")
      case (Inl e)
      with tl have "integrate_all rnd h = Inl e" by (cases "integrate_all rnd h") simp_all
      with Inl Inr u' show ?thesis by simp
    next
      case g2: (Inr g2)
      with tl obtain h2 where "integrate_all rnd h = Inr h2" "list_all2 Q g2 h2"
        by (cases "integrate_all rnd h") simp_all
      with g2 Inr u' show ?thesis by simp
    qed
  qed
qed

lemma one_round_independent:
  assumes wf: "wf_group g" "wf_group h" and len: "length g = length h" and v: "v \<noteq> 0"
  shows "one_round rnd v clk sch g = Inl e \<Longrightarrow> one_round rnd v clk' sch' h = Inl e"
    and "one_round rnd v clk sch g = Inr (b, g2, new) \<Longrightarrow>
           \<exists>h2 new'. one_round rnd v clk' sch' h = Inr (b, h2, new') \<and>
             (\<forall>r < length g.
                v_n (g2 ! r) = v \<and> v_n (h2 ! r) = v \<and>
                v_done (g2 ! r) = 0 \<and> v_done (h2 ! r) = 0 \<and>
                mpi_live (g2 ! r) = mpi_live (g ! r) \<and> mpi_live (h2 ! r) = mpi_live (h ! r) \<and>
                v_h (g2 ! r) = v_h (h2 ! r) \<and> v_sum (g2 ! r) = v_sum (h2 ! r) \<and>
                v_i (g2 ! r) = v_i (h2 ! r) \<and> v_mypi (g2 ! r) = v_mypi (h2 ! r) \<and>
                (0 < r \<longrightarrow> v_pi (g2 ! r) = v_pi (g ! r) \<and> v_pi (h2 ! r) = v_pi (h ! r)) \<and>
                (int r + 1 \<le> v \<longrightarrow> v_x (g2 ! r) = v_x (h2 ! r)) \<and>
                (v < int r + 1 \<longrightarrow> v_x (g2 ! r) = v_x (g ! r) \<and> v_x (h2 ! r) = v_x (h ! r)))"
proof -
  let ?f = "\<lambda>u. (v_h u, v_sum u, v_i u, v_mypi u)"
  let ?Q = "\<lambda>u u'. ?f u = ?f u'"
  let ?g1 = "start_timer clk (map (\<lambda>st. st\<lparr>v_n := v\<rparr>) g)"
  let ?h1 = "start_timer clk' (map (\<lambda>st. st\<lparr>v_n := v\<rparr>) h)"
  let ?s = "\<lambda>r. (g ! r)\<lparr>v_n := v, v_t0 := fst (clk r)\<rparr>"
  let ?t = "\<lambda>r. (h ! r)\<lparr>v_n := v, v_t0 := fst (clk' r)\<rparr>"
  have agree: "0 < v_numprocs (?s r)" "v_n (?s r) = v_n (?t r)" "v_myid (?s r) = v_myid (?t r)"
    "v_numprocs (?s r) = v_numprocs (?t r)" "v_myid (?s r) = int r" if "r < length g" for r
    using that wf_groupD(2,3,4) [OF wf(1)] wf_groupD(3,4) [OF wf(2)] len by simp_all
  have det: "map_sum id ?f (integrate rnd (?s r)) = map_sum id ?f (integrate rnd (?t r))"
    if "r < length g" for r
    by (rule integrate_deterministic_state [OF agree(1-4) [OF that]])
  have rel: "rel_sum (=) ?Q (integrate rnd (?g1 ! r)) (integrate rnd (?h1 ! r))"
    if "r < length ?g1" for r
  proof -
    from that have r: "r < length g" by simp
    have "rel_sum (=) ?Q (integrate rnd (?s r)) (integrate rnd (?t r))"
      using det [OF r]
      by (cases "integrate rnd (?s r)"; cases "integrate rnd (?t r)") simp_all
    then show ?thesis using r len by simp
  qed
  have all: "rel_sum (=) (list_all2 ?Q) (integrate_all rnd ?g1) (integrate_all rnd ?h1)"
    by (rule integrate_all_rel [OF _ rel]) (simp_all add: len)
  {
    assume "one_round rnd v clk sch g = Inl e"
    then have "integrate_all rnd ?g1 = Inl e"
      by (simp add: one_round_run [OF wf(1) v] split: sum.splits)
    with all have "integrate_all rnd ?h1 = Inl e"
      by (cases "integrate_all rnd ?h1") simp_all
    then show "one_round rnd v clk' sch' h = Inl e"
      by (simp add: one_round_run [OF wf(2) v])
  }
  {
    assume o: "one_round rnd v clk sch g = Inr (b, g2, new)"
    then obtain G where G: "integrate_all rnd ?g1 = Inr G"
      by (auto simp: one_round_run [OF wf(1) v] split: sum.splits)
    with all obtain H where H: "integrate_all rnd ?h1 = Inr H"
      by (cases "integrate_all rnd ?h1") simp_all
    then have "one_round rnd v clk' sch' h =
        Inr (False, stop_timer clk' (MPI_Reduce rnd sch' H),
             concat (map (print_report rnd) (stop_timer clk' (MPI_Reduce rnd sch' H))))"
      by (simp add: one_round_run [OF wf(2) v])
    then obtain h2 new' where o': "one_round rnd v clk' sch' h = Inr (False, h2, new')"
      by blast
    note c = one_round_continue [OF wf(1) v o]
    note d = one_round_continue [OF wf(2) v o']
    have rank: "v_n (g2 ! r) = v \<and> v_n (h2 ! r) = v \<and>
                v_done (g2 ! r) = 0 \<and> v_done (h2 ! r) = 0 \<and>
                mpi_live (g2 ! r) = mpi_live (g ! r) \<and> mpi_live (h2 ! r) = mpi_live (h ! r) \<and>
                v_h (g2 ! r) = v_h (h2 ! r) \<and> v_sum (g2 ! r) = v_sum (h2 ! r) \<and>
                v_i (g2 ! r) = v_i (h2 ! r) \<and> v_mypi (g2 ! r) = v_mypi (h2 ! r) \<and>
                (0 < r \<longrightarrow> v_pi (g2 ! r) = v_pi (g ! r) \<and> v_pi (h2 ! r) = v_pi (h ! r)) \<and>
                (int r + 1 \<le> v \<longrightarrow> v_x (g2 ! r) = v_x (h2 ! r)) \<and>
                (v < int r + 1 \<longrightarrow> v_x (g2 ! r) = v_x (g ! r) \<and> v_x (h2 ! r) = v_x (h ! r))"
      if r: "r < length g" for r
    proof -
      from c(5) [OF r] obtain u where
        u: "integrate rnd (?s r) = Inr u" "g2 ! r = u\<lparr>v_pi := v_pi (g2 ! r), v_t1 := snd (clk r)\<rparr>"
        "0 < r \<longrightarrow> v_pi (g2 ! r) = v_pi (g ! r)" by blast
      from d(5) [of r] r len obtain u' where
        u': "integrate rnd (?t r) = Inr u'"
        "h2 ! r = u'\<lparr>v_pi := v_pi (h2 ! r), v_t1 := snd (clk' r)\<rparr>"
        "0 < r \<longrightarrow> v_pi (h2 ! r) = v_pi (h ! r)" by auto
      note a = agree [OF r]
      have pt: "0 < v_numprocs (?t r)" using a(1,4) by simp
      from det [OF r] u(1) u'(1)
      have f: "v_h u = v_h u'" "v_sum u = v_sum u'" "v_i u = v_i u'" "v_mypi u = v_mypi u'"
        by simp_all
      have im: "v_n u = v" "v_n u' = v" "v_done u = 0" "v_done u' = 0"
        "mpi_live u = mpi_live (g ! r)" "mpi_live u' = mpi_live (h ! r)"
        using integrate_immutable(3,7,8) [OF a(1) u(1)] integrate_immutable(3,7,8) [OF pt u'(1)]
          wf(1,2) r len
        by (simp_all add: wf_group_def)
      have x1: "v_x u = v_x u'" if "int r + 1 \<le> v"
        using integrate_deterministic_x [OF a(1-4) u(1) u'(1)] that a(5) by simp
      have x2: "v_x u = v_x (g ! r)" "v_x u' = v_x (h ! r)" if "v < int r + 1"
        using integrate_x [OF a(1) u(1)] integrate_x [OF pt u'(1)] that a(3,5) by simp_all
      have g2: "v_n (g2 ! r) = v_n u" "v_h (g2 ! r) = v_h u" "v_sum (g2 ! r) = v_sum u"
        "v_i (g2 ! r) = v_i u" "v_mypi (g2 ! r) = v_mypi u" "v_x (g2 ! r) = v_x u"
        "v_done (g2 ! r) = v_done u" "mpi_live (g2 ! r) = mpi_live u"
        by (subst u(2), simp)+
      have h2: "v_n (h2 ! r) = v_n u'" "v_h (h2 ! r) = v_h u'" "v_sum (h2 ! r) = v_sum u'"
        "v_i (h2 ! r) = v_i u'" "v_mypi (h2 ! r) = v_mypi u'" "v_x (h2 ! r) = v_x u'"
        "v_done (h2 ! r) = v_done u'" "mpi_live (h2 ! r) = mpi_live u'"
        by (subst u'(2), simp)+
      show ?thesis
        using f im x1 x2 u(3) u'(3) by (simp add: g2 h2)
    qed
    have b: "b = False" using c(1) by simp
    show "\<exists>h2 new'. one_round rnd v clk' sch' h = Inr (b, h2, new') \<and>
             (\<forall>r < length g.
                v_n (g2 ! r) = v \<and> v_n (h2 ! r) = v \<and>
                v_done (g2 ! r) = 0 \<and> v_done (h2 ! r) = 0 \<and>
                mpi_live (g2 ! r) = mpi_live (g ! r) \<and> mpi_live (h2 ! r) = mpi_live (h ! r) \<and>
                v_h (g2 ! r) = v_h (h2 ! r) \<and> v_sum (g2 ! r) = v_sum (h2 ! r) \<and>
                v_i (g2 ! r) = v_i (h2 ! r) \<and> v_mypi (g2 ! r) = v_mypi (h2 ! r) \<and>
                (0 < r \<longrightarrow> v_pi (g2 ! r) = v_pi (g ! r) \<and> v_pi (h2 ! r) = v_pi (h ! r)) \<and>
                (int r + 1 \<le> v \<longrightarrow> v_x (g2 ! r) = v_x (h2 ! r)) \<and>
                (v < int r + 1 \<longrightarrow> v_x (g2 ! r) = v_x (g ! r) \<and> v_x (h2 ! r) = v_x (h ! r)))"
      using o' b rank by auto
  }
qed

lemma one_round_written:
  assumes wf: "wf_group g" and v: "v \<noteq> 0" and o: "one_round rnd v clk sch g = Inr (b, g2, new)"
  shows "new = [Report (dsub rnd (snd (clk 0)) (fst (clk 0))) (v_pi (g2 ! 0))
                  (fabs (dsub rnd (v_pi (g2 ! 0)) M_PI))]"
    "v_pi (g2 ! 0) = reduce_sum rnd sch (map v_mypi g2)"
    "r < length g \<Longrightarrow> v_t0 (g2 ! r) = fst (clk r) \<and> v_t1 (g2 ! r) = snd (clk r)"
proof -
  note c = one_round_continue [OF wf v o]
  show "new = [Report (dsub rnd (snd (clk 0)) (fst (clk 0))) (v_pi (g2 ! 0))
                  (fabs (dsub rnd (v_pi (g2 ! 0)) M_PI))]"
    by (rule c(4))
  show "v_pi (g2 ! 0) = reduce_sum rnd sch (map v_mypi g2)" by (rule c(6))
  assume r: "r < length g"
  from c(5) [OF r] obtain u where
    u: "integrate rnd ((g ! r)\<lparr>v_n := v, v_t0 := fst (clk r)\<rparr>) = Inr u"
    "g2 ! r = u\<lparr>v_pi := v_pi (g2 ! r), v_t1 := snd (clk r)\<rparr>" by blast
  have "0 < v_numprocs ((g ! r)\<lparr>v_n := v, v_t0 := fst (clk r)\<rparr>)"
    using wf_groupD(2,4) [OF wf] r by simp
  from integrate_immutable(4) [OF this u(1)] have "v_t0 u = fst (clk r)" by simp
  moreover have "v_t0 (g2 ! r) = v_t0 u" "v_t1 (g2 ! r) = snd (clk r)"
    by (subst u(2), simp)+
  ultimately show "v_t0 (g2 ! r) = fst (clk r) \<and> v_t1 (g2 ! r) = snd (clk r)" by simp
qed

lemma main_round_independent:
  assumes p: "1 \<le> p"
    and m: "main rnd p junk ins = Inr (AwaitingInput g out)"
    and m': "main rnd p junk' ins' = Inr (AwaitingInput h out')"
  shows "main rnd p junk (ins @ [(v, clk, sch)]) = Inl e \<Longrightarrow>
           main rnd p junk' (ins' @ [(v, clk', sch')]) = Inl e"
    and "main rnd p junk (ins @ [(v, clk, sch)]) = Inr (Exited c g2 out2) \<Longrightarrow>
           \<exists>h2. main rnd p junk' (ins' @ [(v, clk', sch')]) = Inr (Exited c h2 out') \<and> out2 = out"
    and "main rnd p junk (ins @ [(v, clk, sch)]) = Inr (AwaitingInput g2 out2) \<Longrightarrow>
           \<exists>h2. main rnd p junk' (ins' @ [(v, clk', sch')]) =
               Inr (AwaitingInput h2
                 (out' @ [Report (dsub rnd (snd (clk' 0)) (fst (clk' 0))) (v_pi (h2 ! 0))
                            (fabs (dsub rnd (v_pi (h2 ! 0)) M_PI))])) \<and>
             out2 = out @ [Report (dsub rnd (snd (clk 0)) (fst (clk 0))) (v_pi (g2 ! 0))
                             (fabs (dsub rnd (v_pi (g2 ! 0)) M_PI))] \<and>
             length g2 = p \<and> length h2 = p \<and>
             v_pi (g2 ! 0) = reduce_sum rnd sch (map v_mypi g2) \<and>
             v_pi (h2 ! 0) = reduce_sum rnd sch' (map v_mypi h2) \<and>
             (sch = sch' \<longrightarrow> v_pi (g2 ! 0) = v_pi (h2 ! 0)) \<and>
             (\<forall>r < p.
                v_myid (g2 ! r) = int r \<and> v_myid (h2 ! r) = int r \<and>
                v_numprocs (g2 ! r) = int p \<and> v_numprocs (h2 ! r) = int p \<and>
                v_n (g2 ! r) = v \<and> v_n (h2 ! r) = v \<and>
                v_done (g2 ! r) = 0 \<and> v_done (h2 ! r) = 0 \<and>
                mpi_live (g2 ! r) = mpi_live (g ! r) \<and> mpi_live (h2 ! r) = mpi_live (h ! r) \<and>
                v_h (g2 ! r) = v_h (h2 ! r) \<and> v_sum (g2 ! r) = v_sum (h2 ! r) \<and>
                v_i (g2 ! r) = v_i (h2 ! r) \<and> v_mypi (g2 ! r) = v_mypi (h2 ! r) \<and>
                v_t0 (g2 ! r) = fst (clk r) \<and> v_t1 (g2 ! r) = snd (clk r) \<and>
                v_t0 (h2 ! r) = fst (clk' r) \<and> v_t1 (h2 ! r) = snd (clk' r) \<and>
                (0 < r \<longrightarrow> v_pi (g2 ! r) = v_pi (g ! r) \<and> v_pi (h2 ! r) = v_pi (h ! r)) \<and>
                (int r + 1 \<le> v \<longrightarrow> v_x (g2 ! r) = v_x (h2 ! r)) \<and>
                (v < int r + 1 \<longrightarrow> v_x (g2 ! r) = v_x (g ! r) \<and> v_x (h2 ! r) = v_x (h ! r)))"
proof -
  note r = main_reached [OF p m] and r' = main_reached [OF p m']
  have len: "length g = length h" using r(2) r'(2) by simp
  note s = main_snoc_last [OF p m, of v clk sch] and s' = main_snoc_last [OF p m', of v clk' sch']
  {
    assume a: "main rnd p junk (ins @ [(v, clk, sch)]) = Inl e"
    then have o: "one_round rnd v clk sch g = Inl e"
      unfolding s by (auto split: sum.splits bool.splits)
    have "v \<noteq> 0" using one_round_error [OF r(1) o] by simp
    from one_round_independent(1) [OF r(1) r'(1) len this o]
    show "main rnd p junk' (ins' @ [(v, clk', sch')]) = Inl e"
      unfolding s' by simp
  }
  {
    assume a: "main rnd p junk (ins @ [(v, clk, sch)]) = Inr (Exited c g2 out2)"
    then obtain g3 new where o: "one_round rnd v clk sch g = Inr (True, g3, new)"
      and c: "c = map (\<lambda>st. 0) g3" and out2: "out2 = out @ new"
      unfolding s by (auto split: sum.splits bool.splits)
    have v: "v = 0" using one_round_wf(3) [OF r(1) o] by simp
    have "g3 = map (\<lambda>st. st\<lparr>v_n := 0\<rparr>) g" "new = []"
      using o by (simp_all add: v one_round_quit [OF r(1)])
    then have "c = replicate p 0" "out2 = out"
      using c out2 r(2) by (simp_all add: map_replicate_const)
    moreover have "main rnd p junk' (ins' @ [(v, clk', sch')]) =
        Inr (Exited (replicate p 0) (MPI_Finalize (map (\<lambda>st. st\<lparr>v_n := 0\<rparr>) h)) out')"
      unfolding s' using r'(2) by (simp add: v one_round_quit [OF r'(1)] map_replicate_const)
    ultimately
    show "\<exists>h2. main rnd p junk' (ins' @ [(v, clk', sch')]) = Inr (Exited c h2 out') \<and> out2 = out"
      by simp
  }
  {
    assume a: "main rnd p junk (ins @ [(v, clk, sch)]) = Inr (AwaitingInput g2 out2)"
    then obtain new where o: "one_round rnd v clk sch g = Inr (False, g2, new)"
      and out2: "out2 = out @ new"
      unfolding s by (auto split: sum.splits bool.splits)
    have v: "v \<noteq> 0" using one_round_wf(3) [OF r(1) o] by simp
    from one_round_independent(2) [OF r(1) r'(1) len v o, of clk' sch'] obtain h2 new' where
      o': "one_round rnd v clk' sch' h = Inr (False, h2, new')"
      and f: "\<And>r. r < length g \<Longrightarrow>
                v_n (g2 ! r) = v \<and> v_n (h2 ! r) = v \<and>
                v_done (g2 ! r) = 0 \<and> v_done (h2 ! r) = 0 \<and>
                mpi_live (g2 ! r) = mpi_live (g ! r) \<and> mpi_live (h2 ! r) = mpi_live (h ! r) \<and>
                v_h (g2 ! r) = v_h (h2 ! r) \<and> v_sum (g2 ! r) = v_sum (h2 ! r) \<and>
                v_i (g2 ! r) = v_i (h2 ! r) \<and> v_mypi (g2 ! r) = v_mypi (h2 ! r) \<and>
                (0 < r \<longrightarrow> v_pi (g2 ! r) = v_pi (g ! r) \<and> v_pi (h2 ! r) = v_pi (h ! r)) \<and>
                (int r + 1 \<le> v \<longrightarrow> v_x (g2 ! r) = v_x (h2 ! r)) \<and>
                (v < int r + 1 \<longrightarrow> v_x (g2 ! r) = v_x (g ! r) \<and> v_x (h2 ! r) = v_x (h ! r))"
      by blast
    note w = one_round_wf(1,2) [OF r(1) o] and w' = one_round_wf(1,2) [OF r'(1) o']
    note k = one_round_written [OF r(1) v o] and k' = one_round_written [OF r'(1) v o']
    have id: "v_myid (g2 ! k) = int k \<and> v_myid (h2 ! k) = int k \<and>
              v_numprocs (g2 ! k) = int p \<and> v_numprocs (h2 ! k) = int p" if "k < p" for k
      using that wf_groupD(3,4) [OF w(1), of k] wf_groupD(3,4) [OF w'(1), of k] w(2) w'(2) r(2) r'(2)
      by simp
    have t: "v_t0 (g2 ! k) = fst (clk k) \<and> v_t1 (g2 ! k) = snd (clk k) \<and>
             v_t0 (h2 ! k) = fst (clk' k) \<and> v_t1 (h2 ! k) = snd (clk' k)" if "k < p" for k
      using that k(3) [of k] k'(3) [of k] r(2) r'(2) by simp
    have l: "length g2 = p" "length h2 = p" using w(2) w'(2) r(2) r'(2) by simp_all
    have "map v_mypi g2 = map v_mypi h2"
      using f l r(2) by (intro nth_equalityI) simp_all
    then have pi: "sch = sch' \<longrightarrow> v_pi (g2 ! 0) = v_pi (h2 ! 0)"
      using k(2) k'(2) by simp
    have y: "main rnd p junk' (ins' @ [(v, clk', sch')]) =
               Inr (AwaitingInput h2
                 (out' @ [Report (dsub rnd (snd (clk' 0)) (fst (clk' 0))) (v_pi (h2 ! 0))
                            (fabs (dsub rnd (v_pi (h2 ! 0)) M_PI))]))"
      unfolding s' using k'(1) by (simp add: o')
    have x: "out2 = out @ [Report (dsub rnd (snd (clk 0)) (fst (clk 0))) (v_pi (g2 ! 0))
                             (fabs (dsub rnd (v_pi (g2 ! 0)) M_PI))]"
      using out2 k(1) by simp
    from y x l k(2) k'(2) pi f id t r(2)
    show "\<exists>h2. main rnd p junk' (ins' @ [(v, clk', sch')]) =
               Inr (AwaitingInput h2
                 (out' @ [Report (dsub rnd (snd (clk' 0)) (fst (clk' 0))) (v_pi (h2 ! 0))
                            (fabs (dsub rnd (v_pi (h2 ! 0)) M_PI))])) \<and>
             out2 = out @ [Report (dsub rnd (snd (clk 0)) (fst (clk 0))) (v_pi (g2 ! 0))
                             (fabs (dsub rnd (v_pi (g2 ! 0)) M_PI))] \<and>
             length g2 = p \<and> length h2 = p \<and>
             v_pi (g2 ! 0) = reduce_sum rnd sch (map v_mypi g2) \<and>
             v_pi (h2 ! 0) = reduce_sum rnd sch' (map v_mypi h2) \<and>
             (sch = sch' \<longrightarrow> v_pi (g2 ! 0) = v_pi (h2 ! 0)) \<and>
             (\<forall>r < p.
                v_myid (g2 ! r) = int r \<and> v_myid (h2 ! r) = int r \<and>
                v_numprocs (g2 ! r) = int p \<and> v_numprocs (h2 ! r) = int p \<and>
                v_n (g2 ! r) = v \<and> v_n (h2 ! r) = v \<and>
                v_done (g2 ! r) = 0 \<and> v_done (h2 ! r) = 0 \<and>
                mpi_live (g2 ! r) = mpi_live (g ! r) \<and> mpi_live (h2 ! r) = mpi_live (h ! r) \<and>
                v_h (g2 ! r) = v_h (h2 ! r) \<and> v_sum (g2 ! r) = v_sum (h2 ! r) \<and>
                v_i (g2 ! r) = v_i (h2 ! r) \<and> v_mypi (g2 ! r) = v_mypi (h2 ! r) \<and>
                v_t0 (g2 ! r) = fst (clk r) \<and> v_t1 (g2 ! r) = snd (clk r) \<and>
                v_t0 (h2 ! r) = fst (clk' r) \<and> v_t1 (h2 ! r) = snd (clk' r) \<and>
                (0 < r \<longrightarrow> v_pi (g2 ! r) = v_pi (g ! r) \<and> v_pi (h2 ! r) = v_pi (h ! r)) \<and>
                (int r + 1 \<le> v \<longrightarrow> v_x (g2 ! r) = v_x (h2 ! r)) \<and>
                (v < int r + 1 \<longrightarrow> v_x (g2 ! r) = v_x (g ! r) \<and> v_x (h2 ! r) = v_x (h ! r)))"
      by (intro exI [of _ h2]) simp
  }
qed

section \<open>Rounding errors of a round\<close>

text \<open>
  Rounding to nearest moves a value by at most half a unit in the last place, so
  \<open>binary64\<close> is accurate; \<open>exact\<close> is accurate trivially.
\<close>

lemma rint_error: "\<bar>of_int (rint q) - q\<bar> \<le> 1 / 2"
proof -
  have "of_int \<lfloor>q\<rfloor> \<le> q" "q < of_int \<lfloor>q\<rfloor> + 1" by linarith+
  then show ?thesis by (auto simp: rint_def Let_def abs_le_iff)
qed

lemma binary64_half_ulp:
  assumes "0 < q"
  shows "\<bar>binary64 q - q\<bar> \<le> 2 powi (ilog2 q - 53)"
proof -
  define e where "e = ilog2 q"
  define m where "m = rint (q * 2 powi (52 - e))"
  have b: "binary64 q = of_int m * 2 powi (e - 52)"
    using assms by (simp add: binary64_def Let_def e_def m_def)
  have "q = q * 2 powi (52 - e) * 2 powi (e - 52)"
    by (simp add: mult.assoc flip: power_int_add)
  then have "binary64 q - q = (of_int m - q * 2 powi (52 - e)) * 2 powi (e - 52)"
    unfolding b by (simp add: algebra_simps)
  then have "\<bar>binary64 q - q\<bar> = \<bar>of_int m - q * 2 powi (52 - e)\<bar> * 2 powi (e - 52)"
    by (simp add: abs_mult)
  also have "\<dots> \<le> 1 / 2 * 2 powi (e - 52)"
    unfolding m_def by (intro mult_right_mono rint_error) simp
  also have "\<dots> = 2 powi (e - 53)"
  proof -
    have "(2::rat) powi (e - 52) = 2 powi (e - 53 + 1)" by simp
    also have "\<dots> = 2 powi (e - 53) * 2" by (subst power_int_add) simp_all
    finally show ?thesis by simp
  qed
  finally show ?thesis by (simp add: e_def)
qed

lemma binary64_relative:
  assumes "0 < q"
  shows "\<bar>binary64 q - q\<bar> \<le> q / 2 ^ 53"
proof -
  have "(2::rat) powi (ilog2 q - 53) = 2 powi ilog2 q / 2 ^ 53"
    by (subst power_int_diff) simp_all
  also have "\<dots> \<le> q / 2 ^ 53"
    using ilog2_bounds(1) [OF assms] by (simp add: divide_right_mono)
  finally show ?thesis using binary64_half_ulp [OF assms] by simp
qed

lemma accurate_binary64: "accurate binary64"
proof -
  have "q \<le> binary64 q * ulp_factor \<and> binary64 q \<le> q * ulp_factor" if "0 < q" for q
  proof -
    have "\<bar>binary64 q - q\<bar> \<le> q / 2 ^ 53" by (rule binary64_relative [OF that])
    then have "binary64 q - q \<le> q / 2 ^ 53" "- (binary64 q - q) \<le> q / 2 ^ 53"
      by (simp_all only: abs_le_iff)
    then have lo: "q - q / 2 ^ 53 \<le> binary64 q" and hi: "binary64 q \<le> q + q / 2 ^ 53"
      by linarith+
    have "q \<le> (q - q / 2 ^ 53) * ulp_factor"
      using that by (simp add: ulp_factor_def field_simps)
    also have "\<dots> \<le> binary64 q * ulp_factor"
      using lo by (intro mult_right_mono) (simp_all add: ulp_factor_def)
    finally have 1: "q \<le> binary64 q * ulp_factor" .
    have "q + q / 2 ^ 53 \<le> q * ulp_factor"
      using that by (simp add: ulp_factor_def field_simps)
    with hi have 2: "binary64 q \<le> q * ulp_factor" by simp
    from 1 2 show ?thesis ..
  qed
  then show ?thesis by (simp add: accurate_def) (simp add: binary64_def)
qed

lemma accurate_exact: "accurate exact"
  by (simp add: accurate_def exact_def ulp_factor_def field_simps)

text \<open>
  How the distance \<open>near\<close> behaves under the operations of the program: sums, products
  and quotients of nonnegative values, one more rounding, and the subtraction of 0.5
  from a sample index.
\<close>

lemma ulp_factor_ge1: "1 \<le> ulp_factor"
  by (simp add: ulp_factor_def)

lemma ulp_factor_pos: "0 < ulp_factor"
  by (simp add: ulp_factor_def)

lemma ulp_power_ge1: "1 \<le> ulp_factor ^ k"
  by (rule one_le_power [OF ulp_factor_ge1])

lemma ulp_power_pos: "0 < ulp_factor ^ k"
  by (rule zero_less_power [OF ulp_factor_pos])

lemma ulp_power_mono: "k \<le> l \<Longrightarrow> ulp_factor ^ k \<le> ulp_factor ^ l"
  by (rule power_increasing [OF _ ulp_factor_ge1])

lemma near_nonneg: "near k a b \<Longrightarrow> 0 \<le> a"
proof -
  assume "near k a b"
  then have "0 \<le> a * ulp_factor ^ k" by (simp add: near_def)
  then show ?thesis using ulp_power_pos [of k] by (simp only: zero_le_mult_iff) linarith
qed

lemma near_pos: "near k a b \<Longrightarrow> 0 < b \<Longrightarrow> 0 < a"
proof -
  assume "near k a b" "0 < b"
  then have "0 < a * ulp_factor ^ k" by (simp add: near_def)
  then show ?thesis using ulp_power_pos [of k] by (simp only: zero_less_mult_pos2)
qed

lemma near_refl: "0 \<le> b \<Longrightarrow> near 0 b b"
  by (simp add: near_def)

lemma near_mono:
  assumes "near k a b" "k \<le> l"
  shows "near l a b"
proof -
  have a: "0 \<le> a" by (rule near_nonneg [OF assms(1)])
  have b: "0 \<le> b" "b \<le> a * ulp_factor ^ k" "a \<le> b * ulp_factor ^ k"
    using assms(1) by (simp_all add: near_def)
  have "a * ulp_factor ^ k \<le> a * ulp_factor ^ l"
    by (intro mult_left_mono ulp_power_mono a assms(2))
  moreover have "b * ulp_factor ^ k \<le> b * ulp_factor ^ l"
    by (intro mult_left_mono ulp_power_mono b(1) assms(2))
  ultimately show ?thesis using b by (simp add: near_def)
qed

lemma near_add:
  assumes "near k a b" "near k c d"
  shows "near k (a + c) (b + d)"
  using assms by (simp add: near_def algebra_simps add_mono)

lemma near_mult:
  assumes "near k a b" "near l c d"
  shows "near (k + l) (a * c) (b * d)"
proof -
  note a = near_nonneg [OF assms(1)] and c = near_nonneg [OF assms(2)]
  have b: "0 \<le> b" "b \<le> a * ulp_factor ^ k" "a \<le> b * ulp_factor ^ k"
    using assms(1) by (simp_all add: near_def)
  have d: "0 \<le> d" "d \<le> c * ulp_factor ^ l" "c \<le> d * ulp_factor ^ l"
    using assms(2) by (simp_all add: near_def)
  have "b * d \<le> (a * ulp_factor ^ k) * (c * ulp_factor ^ l)"
    by (intro mult_mono b d) (simp_all add: a c ulp_power_pos less_imp_le)
  moreover have "a * c \<le> (b * ulp_factor ^ k) * (d * ulp_factor ^ l)"
    by (intro mult_mono b d a c) (simp_all add: b d ulp_power_pos less_imp_le)
  ultimately show ?thesis using b(1) d(1) by (simp add: near_def power_add algebra_simps)
qed

lemma near_divide:
  assumes "near k a b" "0 < b" "0 \<le> c"
  shows "near k (c / a) (c / b)"
proof -
  have a: "0 < a" by (rule near_pos [OF assms(1,2)])
  have b: "b \<le> a * ulp_factor ^ k" "a \<le> b * ulp_factor ^ k"
    using assms(1) by (simp_all add: near_def)
  have "c / b \<le> c / a * ulp_factor ^ k"
  proof -
    have "c * a \<le> c * (b * ulp_factor ^ k)" by (intro mult_left_mono b assms(3))
    then show ?thesis using a assms(2) by (simp add: field_simps)
  qed
  moreover have "c / a \<le> c / b * ulp_factor ^ k"
  proof -
    have "c * b \<le> c * (a * ulp_factor ^ k)" by (intro mult_left_mono b assms(3))
    then show ?thesis using a assms(2) by (simp add: field_simps)
  qed
  ultimately show ?thesis using assms(2,3) by (simp add: near_def)
qed

lemma accurateD:
  assumes "accurate rnd"
  shows "rnd 0 = 0" "0 < q \<Longrightarrow> q \<le> rnd q * ulp_factor" "0 < q \<Longrightarrow> rnd q \<le> q * ulp_factor"
  using assms by (simp_all add: accurate_def)

lemma near_round:
  assumes acc: "accurate rnd" and "near k a b"
  shows "near (Suc k) (rnd a) b"
proof (cases "a = 0")
  case True
  with assms(2) have "b = 0" by (simp add: near_def)
  with True show ?thesis by (simp add: near_def accurateD(1) [OF acc])
next
  case False
  with near_nonneg [OF assms(2)] have a: "0 < a" by simp
  have b: "0 \<le> b" "b \<le> a * ulp_factor ^ k" "a \<le> b * ulp_factor ^ k"
    using assms(2) by (simp_all add: near_def)
  have "a * ulp_factor ^ k \<le> (rnd a * ulp_factor) * ulp_factor ^ k"
    by (intro mult_right_mono accurateD(2) [OF acc a]) (simp add: ulp_power_pos less_imp_le)
  with b(2) have 1: "b \<le> rnd a * ulp_factor ^ Suc k" by (simp add: mult_ac)
  have "rnd a \<le> a * ulp_factor" by (rule accurateD(3) [OF acc a])
  also have "\<dots> \<le> (b * ulp_factor ^ k) * ulp_factor"
    by (intro mult_right_mono b) (simp add: ulp_factor_pos less_imp_le)
  finally have 2: "rnd a \<le> b * ulp_factor ^ Suc k" by (simp add: mult_ac)
  from 1 2 b(1) show ?thesis by (simp add: near_def)
qed

lemma near_minus_half:
  assumes "near 1 a i" "1 \<le> i"
  shows "near 3 (a - 1 / 2) (i - 1 / 2)"
proof -
  let ?F = ulp_factor
  have F: "1 \<le> ?F" "0 < ?F" by (simp_all add: ulp_factor_def)
  have b: "i \<le> a * ?F" "a \<le> i * ?F" using assms(1) by (simp_all add: near_def)
  have c1: "2 * ?F - 1 \<le> ?F ^ 3" by (simp add: ulp_factor_def power3_eq_cube)
  have c2: "?F ^ 3 + 1 \<le> 2 * ?F ^ 2" by (simp add: ulp_factor_def power3_eq_cube power2_eq_square)
  have "a - 1 / 2 \<le> i * ?F - 1 / 2" using b(2) by simp
  also have "\<dots> \<le> (i - 1 / 2) * (2 * ?F - 1)"
  proof -
    have "0 \<le> (i - 1) * (?F - 1)" using assms(2) F(1) by simp
    then show ?thesis by (simp add: algebra_simps)
  qed
  also have "\<dots> \<le> (i - 1 / 2) * ?F ^ 3"
    using assms(2) by (intro mult_left_mono c1) simp
  finally have up: "a - 1 / 2 \<le> (i - 1 / 2) * ?F ^ 3" .
  have "i * ?F ^ 2 \<le> (a * ?F) * ?F ^ 2"
    by (intro mult_right_mono b(1)) simp
  then have ia: "i * ?F ^ 2 \<le> a * ?F ^ 3" by (simp add: power3_eq_cube power2_eq_square mult.assoc)
  have "(?F ^ 3 - 1) / 2 \<le> ?F ^ 2 - 1" using c2 by simp
  also have "\<dots> \<le> i * (?F ^ 2 - 1)"
  proof -
    have "0 \<le> ?F ^ 2 - 1" by (simp add: ulp_factor_def power2_eq_square)
    then have "1 * (?F ^ 2 - 1) \<le> i * (?F ^ 2 - 1)" by (intro mult_right_mono assms(2))
    then show ?thesis by simp
  qed
  finally have "i - 1 / 2 \<le> i * ?F ^ 2 - ?F ^ 3 / 2"
    by (simp add: algebra_simps diff_divide_distrib)
  also have "\<dots> \<le> a * ?F ^ 3 - ?F ^ 3 / 2" using ia by simp
  finally have lo: "i - 1 / 2 \<le> (a - 1 / 2) * ?F ^ 3" by (simp add: algebra_simps)
  from up lo assms(2) show ?thesis by (simp add: near_def)
qed

text \<open>
  The distance between the values the program computes with an accurate rounding and the
  values of exact arithmetic, followed through lines 24 to 32: the step width, a
  midpoint, a kernel value, the accumulated sum, the partial result of a rank and the
  reduced total.
\<close>

lemma near_step_width:
  assumes acc: "accurate rnd" and "1 \<le> n"
  shows "near 2 (step_width rnd n) (step_width exact n)"
proof -
  have n: "0 < (of_int n :: rat)" using assms(2) by simp
  have "near 0 (of_int n :: rat) (of_int n)" using n by (intro near_refl) simp
  then have "near 1 (rnd (of_int n)) (of_int n)"
    using near_round [OF acc, of 0] by simp
  then have "near 1 (1 / rnd (of_int n)) (1 / of_int n)"
    by (rule near_divide [OF _ n]) simp
  then have "near 2 (rnd (1 / rnd (of_int n))) (1 / of_int n)"
    using near_round [OF acc, of 1] by (simp add: numeral_2_eq_2)
  then show ?thesis by (simp add: step_width_def int_to_double_def exact_def)
qed

lemma near_midpoint:
  assumes acc: "accurate rnd" and "near k h H" "1 \<le> i"
  shows "near (k + 5) (midpoint rnd h i) (midpoint exact H i)"
proof -
  have i: "1 \<le> (of_int i :: rat)" using assms(3) by simp
  then have "near 0 (of_int i :: rat) (of_int i)" by (intro near_refl) simp
  then have "near 1 (rnd (of_int i)) (of_int i)"
    using near_round [OF acc, of 0] by simp
  then have "near 3 (rnd (of_int i) - 1 / 2) (of_int i - 1 / 2)"
    by (rule near_minus_half [OF _ i])
  then have "near 4 (rnd (rnd (of_int i) - 1 / 2)) (of_int i - 1 / 2)"
    using near_round [OF acc, of 3] by (simp add: eval_nat_numeral)
  then have "near (k + 4) (h * rnd (rnd (of_int i) - 1 / 2)) (H * (of_int i - 1 / 2))"
    by (rule near_mult [OF assms(2)])
  then have "near (Suc (k + 4)) (rnd (h * rnd (rnd (of_int i) - 1 / 2))) (H * (of_int i - 1 / 2))"
    by (rule near_round [OF acc])
  then show ?thesis
    by (simp add: midpoint_def dmul_def dsub_def int_to_double_def exact_def eval_nat_numeral)
qed

lemma near_kernel:
  assumes acc: "accurate rnd" and "near k x X"
  shows "near (2 * k + 3) (kernel_at rnd x) (kernel_at exact X)"
proof -
  have "near (k + k) (x * x) (X * X)" by (rule near_mult [OF assms(2) assms(2)])
  then have "near (Suc (k + k)) (rnd (x * x)) (X * X)" by (rule near_round [OF acc])
  moreover have "near (Suc (k + k)) 1 1" by (rule near_mono [OF near_refl]) simp_all
  ultimately have "near (Suc (k + k)) (1 + rnd (x * x)) (1 + X * X)"
    by (intro near_add)
  then have d: "near (Suc (Suc (k + k))) (rnd (1 + rnd (x * x))) (1 + X * X)"
    by (rule near_round [OF acc])
  have "0 < 1 + X * X" by (simp add: add_pos_nonneg)
  from near_divide [OF d this, of 4]
  have "near (Suc (Suc (k + k))) (4 / rnd (1 + rnd (x * x))) (4 / (1 + X * X))" by simp
  then have "near (Suc (Suc (Suc (k + k)))) (rnd (4 / rnd (1 + rnd (x * x)))) (4 / (1 + X * X))"
    by (rule near_round [OF acc])
  moreover have "Suc (Suc (Suc (k + k))) = 2 * k + 3" by simp
  ultimately show ?thesis
    by (simp add: kernel_at_def dadd_def dmul_def exact_def)
qed

lemma near_kernel_sum:
  assumes acc: "accurate rnd" and h: "near 2 h H"
  shows "\<forall>i \<in> set xs. 1 \<le> i \<Longrightarrow> near (17 + j) a A \<Longrightarrow>
           near (17 + j + length xs) (kernel_sum rnd h a xs) (kernel_sum exact H A xs)"
proof (induction xs arbitrary: a A j)
  case Nil
  then show ?case by (simp add: kernel_sum_def)
next
  case (Cons i xs)
  have "near (2 + 5) (midpoint rnd h i) (midpoint exact H i)"
    using Cons.prems(1) by (intro near_midpoint [OF acc h]) simp
  then have "near (2 * (2 + 5) + 3) (kernel_at rnd (midpoint rnd h i)) (kernel_at exact (midpoint exact H i))"
    by (rule near_kernel [OF acc])
  then have "near (17 + j) (kernel_at rnd (midpoint rnd h i)) (kernel_at exact (midpoint exact H i))"
    by (rule near_mono) simp
  with Cons.prems(2)
  have "near (17 + j) (a + kernel_at rnd (midpoint rnd h i)) (A + kernel_at exact (midpoint exact H i))"
    by (intro near_add)
  then have "near (Suc (17 + j)) (rnd (a + kernel_at rnd (midpoint rnd h i)))
               (A + kernel_at exact (midpoint exact H i))"
    by (rule near_round [OF acc])
  then have "near (17 + Suc j) (dadd rnd a (kernel_at rnd (midpoint rnd h i)))
               (dadd exact A (kernel_at exact (midpoint exact H i)))"
    by (simp add: dadd_def exact_def)
  from Cons.IH [OF _ this] Cons.prems(1)
  have "near (17 + Suc j + length xs)
          (kernel_sum rnd h (dadd rnd a (kernel_at rnd (midpoint rnd h i))) xs)
          (kernel_sum exact H (dadd exact A (kernel_at exact (midpoint exact H i))) xs)"
    by simp
  then show ?case by (simp add: kernel_sum_def add.assoc)
qed

lemma length_strided_le:
  assumes "0 \<le> r" "0 \<le> n"
  shows "length (strided (r + 1) n p) \<le> nat n"
proof (cases "0 < p")
  case True
  have "set (strided (r + 1) n p) \<subseteq> {1..n}"
    using assms(1) True by (auto simp: set_strided)
  then have "card (set (strided (r + 1) n p)) \<le> card {1..n}"
    by (intro card_mono) simp_all
  then show ?thesis by (simp add: distinct_card [OF distinct_strided])
next
  case False
  then show ?thesis by (simp add: strided_Nil)
qed

lemma near_scaled_once:
  assumes acc: "accurate rnd" and "1 \<le> n" "0 \<le> r"
  shows "near (20 + nat n) (scaled_once rnd n r p) (scaled_once exact n r p)"
proof -
  let ?xs = "strided (r + 1) n p"
  note h = near_step_width [OF acc assms(2)]
  have "\<forall>i \<in> set ?xs. 1 \<le> i"
    using strided_lower [of _ "r + 1" n p] assms(3) by fastforce
  moreover have "near (17 + 0) 0 0" by (simp add: near_def)
  ultimately have "near (17 + 0 + length ?xs) (kernel_sum rnd (step_width rnd n) 0 ?xs)
      (kernel_sum exact (step_width exact n) 0 ?xs)"
    by (intro near_kernel_sum [OF acc h])
  from near_mult [OF h this]
  have "near (Suc (2 + (17 + 0 + length ?xs)))
          (rnd (step_width rnd n * kernel_sum rnd (step_width rnd n) 0 ?xs))
          (step_width exact n * kernel_sum exact (step_width exact n) 0 ?xs)"
    by (rule near_round [OF acc])
  then have "near (20 + length ?xs) (scaled_once rnd n r p) (scaled_once exact n r p)"
    by (simp add: scaled_once_def dmul_def exact_def)
  then show ?thesis
    by (rule near_mono) (use length_strided_le [OF assms(3), of n p] assms(2) in simp)
qed

lemma near_reduce_sum:
  assumes acc: "accurate rnd" and "list_all2 (near k) ps qs"
  shows "near (k + length (ranks_of sch)) (reduce_sum rnd sch ps) (reduce_sum exact sch qs)"
proof (induction sch)
  case (Rank r)
  have len: "length ps = length qs" by (rule list_all2_lengthD [OF assms(2)])
  have "near k (reduce_sum rnd (Rank r) ps) (reduce_sum exact (Rank r) qs)"
  proof (cases "r < length ps")
    case True
    then show ?thesis using list_all2_nthD [OF assms(2) True] len by simp
  next
    case False
    then show ?thesis using len by (simp add: near_def)
  qed
  then show ?case by (rule near_mono) simp
next
  case (Combine a b)
  let ?m = "k + (length (ranks_of a) + length (ranks_of b) - 1)"
  have pos: "0 < length (ranks_of c)" for c by (induction c) simp_all
  have "near ?m (reduce_sum rnd a ps) (reduce_sum exact a qs)"
    by (rule near_mono [OF Combine.IH(1)]) (use pos [of b] in linarith)
  moreover have "near ?m (reduce_sum rnd b ps) (reduce_sum exact b qs)"
    by (rule near_mono [OF Combine.IH(2)]) (use pos [of a] in linarith)
  ultimately
  have "near ?m (reduce_sum rnd a ps + reduce_sum rnd b ps)
          (reduce_sum exact a qs + reduce_sum exact b qs)"
    by (rule near_add)
  then have "near (Suc ?m) (rnd (reduce_sum rnd a ps + reduce_sum rnd b ps))
          (reduce_sum exact a qs + reduce_sum exact b qs)"
    by (rule near_round [OF acc])
  moreover have "Suc ?m = k + length (ranks_of (Combine a b))"
    using pos [of a] by simp
  ultimately have "near (k + length (ranks_of (Combine a b)))
          (rnd (reduce_sum rnd a ps + reduce_sum rnd b ps))
          (reduce_sum exact a qs + reduce_sum exact b qs)"
    by (simp only:)
  moreover have "reduce_sum rnd (Combine a b) ps =
          rnd (reduce_sum rnd a ps + reduce_sum rnd b ps)"
    by (simp add: dadd_def)
  moreover have "reduce_sum exact (Combine a b) qs =
          reduce_sum exact a qs + reduce_sum exact b qs"
    unfolding reduce_sum.simps dadd_def by (rule exact_def)
  ultimately show ?case by (simp only:)
qed

text \<open>
  From the distance to an absolute error: the exact total is at most 4, and \<open>k\<close> factors
  \<open>ulp_factor\<close> change a value of at most 4 by at most \<open>k / 2 ^ 48\<close>, twice over for two
  values near the same exact one.
\<close>

lemma ulp_power_bound:
  "2 * of_nat k \<le> (2::rat) ^ 52 \<Longrightarrow> ulp_factor ^ k \<le> 1 + 2 * of_nat k / 2 ^ 52"
proof (induction k)
  case 0
  then show ?case by simp
next
  case (Suc k)
  have k: "2 * of_nat k \<le> (2::rat) ^ 52" using Suc.prems by simp
  have "ulp_factor ^ Suc k = ulp_factor ^ k * ulp_factor" by simp
  also have "\<dots> \<le> (1 + 2 * of_nat k / 2 ^ 52) * ulp_factor"
    by (intro mult_right_mono Suc.IH [OF k]) (simp add: ulp_factor_def)
  also have "\<dots> = 1 + 2 * of_nat k / 2 ^ 52 + 1 / 2 ^ 52 + (2 * of_nat k / 2 ^ 52) * (1 / 2 ^ 52)"
    by (simp add: ulp_factor_def algebra_simps)
  also have "\<dots> \<le> 1 + 2 * of_nat k / 2 ^ 52 + 1 / 2 ^ 52 + 1 * (1 / 2 ^ 52)"
  proof -
    have "2 * of_nat k / 2 ^ 52 \<le> (1::rat)" using k by simp
    then have "(2 * of_nat k / 2 ^ 52) * (1 / 2 ^ 52) \<le> 1 * (1 / 2 ^ 52 :: rat)"
      by (intro mult_right_mono) simp_all
    then show ?thesis by simp
  qed
  also have "\<dots> = 1 + 2 * of_nat (Suc k) / 2 ^ 52"
    by (simp add: field_simps)
  finally show ?case .
qed

lemma near_difference:
  assumes "near k a T" "near k a' T" "T \<le> 4" "2 * of_nat k \<le> (2::rat) ^ 52"
  shows "\<bar>a - a'\<bar> \<le> of_nat k / 2 ^ 48"
proof -
  define g where "g = ulp_factor ^ k"
  have g: "1 \<le> g" "0 < g" unfolding g_def by (rule ulp_power_ge1, rule ulp_power_pos)
  have gb: "g - 1 \<le> 2 * of_nat k / 2 ^ 52"
    unfolding g_def using ulp_power_bound [OF assms(4)] by simp
  have T: "0 \<le> T" using assms(1) by (simp add: near_def)
  have one_side: "x - y \<le> of_nat k / 2 ^ 48" if "near k x T" "near k y T" for x y
  proof -
    have x: "x \<le> T * g" and y: "T \<le> y * g" using that by (simp_all add: near_def g_def)
    have yT: "T / g \<le> y" using y g by (simp add: field_simps)
    have "x - y \<le> T * g - T / g"
      using x yT by linarith
    also have "\<dots> = T * (g - 1) * ((g + 1) / g)"
      using g by (simp add: field_simps)
    also have "\<dots> \<le> T * (g - 1) * 2"
    proof -
      have "(g + 1) / g \<le> 2" using g by (simp add: field_simps)
      moreover have "0 \<le> T * (g - 1)" using T g by simp
      ultimately show ?thesis by (intro mult_left_mono)
    qed
    also have "\<dots> \<le> 4 * (2 * of_nat k / 2 ^ 52) * 2"
    proof -
      have "T * (g - 1) \<le> 4 * (2 * of_nat k / 2 ^ 52)"
        using assms(3) gb T g by (intro mult_mono) simp_all
      then show ?thesis by simp
    qed
    also have "\<dots> = of_nat k / 2 ^ 48" by simp
    finally show ?thesis .
  qed
  from one_side [OF assms(1,2)] one_side [OF assms(2,1)] show ?thesis
    by (simp only: abs_le_iff minus_diff_eq simp_thms)
qed

lemma scaled_once_exact_le_4:
  assumes "1 \<le> n"
  shows "scaled_once exact n 0 1 \<le> 4"
proof -
  let ?f = "\<lambda>j. 4 / (1 + (1 / rat_of_int n * (of_int j - 1 / 2))\<^sup>2)"
  have "?f j \<le> 4" for j
  proof -
    have "1 \<le> 1 + (1 / rat_of_int n * (of_int j - 1 / 2))\<^sup>2" by simp
    then have "4 / (1 + (1 / rat_of_int n * (of_int j - 1 / 2))\<^sup>2) \<le> 4 / 1"
      by (intro divide_left_mono) (simp_all add: add_pos_nonneg)
    then show ?thesis by simp
  qed
  then have "(\<Sum>j \<in> {1..n}. ?f j) \<le> (\<Sum>j \<in> {1..n}. 4)" by (intro sum_mono)
  also have "\<dots> = 4 * of_int n" using assms by simp
  finally have "1 / of_int n * (\<Sum>j \<in> {1..n}. ?f j) \<le> 1 / of_int n * (4 * of_int n)"
    using assms by (intro mult_left_mono) simp_all
  then show ?thesis using assms by (simp add: scaled_once_exact strided_all)
qed

lemma near_total:
  assumes acc: "accurate rnd" and "1 \<le> n" "1 \<le> p" "schedule_of p sch"
  shows "near (20 + nat n + p)
           (reduce_sum rnd sch (map (\<lambda>r. scaled_once rnd n (int r) (int p)) [0..<p]))
           (scaled_once exact n 0 1)"
proof -
  have "list_all2 (near (20 + nat n))
          (map (\<lambda>r. scaled_once rnd n (int r) (int p)) [0..<p])
          (map (\<lambda>r. scaled_once exact n (int r) (int p)) [0..<p])"
    by (simp add: list_all2_conv_all_nth near_scaled_once [OF acc assms(2)])
  from near_reduce_sum [OF acc this, of sch] total_exact [of p sch n] assms(3,4)
    schedule_ofD(3) [OF assms(4)]
  show ?thesis by simp
qed

lemma tolerance_bound:
  assumes "1 \<le> n" "n + int p \<le> INT_MAX"
  shows "2 * rat_of_nat (20 + nat n + p) \<le> 2 ^ 52"
proof -
  have "int (20 + nat n + p) \<le> 20 + 2147483647"
    using assms by (simp add: INT_MAX_def)
  then have "20 + nat n + p \<le> 2147483667" by linarith
  then have "rat_of_nat (20 + nat n + p) \<le> rat_of_nat 2147483667"
    by (simp only: of_nat_le_iff)
  then show ?thesis by simp
qed


section \<open>Claims about the partition of the sample indices\<close>

text \<open>
  Claim C1, as amended. For every \<open>n \<ge> 1\<close> and every group size \<open>numprocs \<ge> 1\<close> with
  \<open>n + numprocs \<le> INT_MAX\<close> (so that \<^verbatim>\<open>i += numprocs\<close> stays inside \<^verbatim>\<open>int\<close>), the loop
  of every rank \<open>r\<close> in \<open>[0, numprocs)\<close> returns, the indices it visits are
  \<open>{r + 1, r + 1 + numprocs, r + 1 + 2 * numprocs, ...}\<close> intersected with \<open>[1, n]\<close>,
  each visited once; the index sets of two different ranks are disjoint, and their union
  over all ranks is exactly \<open>{1..n}\<close>.
\<close>

theorem owned_partition:
  assumes "1 \<le> n" "1 \<le> numprocs" "n + numprocs \<le> INT_MAX"
  shows "(\<forall>r\<in>{0..<numprocs}.
            owned n r numprocs = Some (Inr (owned_indices n r numprocs)) \<and>
            distinct (owned_indices n r numprocs) \<and>
            set (owned_indices n r numprocs) = range (\<lambda>k. r + 1 + int k * numprocs) \<inter> {1..n}) \<and>
         (\<forall>r\<in>{0..<numprocs}. \<forall>r'\<in>{0..<numprocs}. r \<noteq> r' \<longrightarrow>
            set (owned_indices n r numprocs) \<inter> set (owned_indices n r' numprocs) = {}) \<and>
         (\<Union>r\<in>{0..<numprocs}. set (owned_indices n r numprocs)) = {1..n}"
proof -
  have p: "0 < numprocs" and n: "0 \<le> n" using assms by simp_all
  have eq: "owned_indices n r numprocs = strided (r + 1) n numprocs"
    if "r \<in> {0..<numprocs}" for r
    using that owned_indices_strided [OF p _ _ n assms(3), of r] by simp
  have own: "owned n r numprocs = Some (Inr (owned_indices n r numprocs))"
    if "r \<in> {0..<numprocs}" for r
    using that owned_strided [OF p _ _ n assms(3), of r] eq [OF that] by simp
  have rng: "set (owned_indices n r numprocs) = range (\<lambda>k. r + 1 + int k * numprocs) \<inter> {1..n}"
    if "r \<in> {0..<numprocs}" for r
    using that set_strided_range [OF p, of r n] eq [OF that] by simp
  have dis: "set (owned_indices n r numprocs) \<inter> set (owned_indices n r' numprocs) = {}"
    if "r \<in> {0..<numprocs}" "r' \<in> {0..<numprocs}" "r \<noteq> r'" for r r'
    using that strided_disjoint [OF p, of r r' n] eq [OF that(1)] eq [OF that(2)] by simp
  have "(\<Union>r\<in>{0..<numprocs}. set (owned_indices n r numprocs))
          = (\<Union>r\<in>{0..<numprocs}. set (strided (r + 1) n numprocs))"
    using eq by simp
  then have cov: "(\<Union>r\<in>{0..<numprocs}. set (owned_indices n r numprocs)) = {1..n}"
    using strided_cover [OF p, of n] by simp
  show ?thesis
    using own rng dis cov eq distinct_strided by simp
qed

text \<open>The theorem at \<open>n = 7\<close> with three ranks, and the three index lists.\<close>

theorem owned_partition_witness:
  "(1::int) \<le> 7 \<and> (1::int) \<le> 3 \<and> (7::int) + 3 \<le> INT_MAX \<and>
   owned 7 0 3 = Some (Inr (owned_indices 7 0 3)) \<and>
   distinct (owned_indices 7 0 3) \<and>
   set (owned_indices 7 0 3) = range (\<lambda>k. 0 + 1 + int k * 3) \<inter> {1..7} \<and>
   set (owned_indices 7 0 3) \<inter> set (owned_indices 7 1 3) = {} \<and>
   (\<Union>r\<in>{0..<3}. set (owned_indices 7 r 3)) = {1..7}"
proof -
  have h: "(1::int) \<le> 7" "(1::int) \<le> 3" "(7::int) + 3 \<le> INT_MAX"
    by (simp_all add: INT_MAX_def)
  have r: "(0::int) \<in> {0..<3}" "(1::int) \<in> {0..<3}" "(0::int) \<noteq> 1" by simp_all
  from owned_partition [OF h] h r show ?thesis by blast
qed

lemma owned_examples:
  "owned 7 0 3 = Some (Inr [1, 4, 7])" "owned 7 1 3 = Some (Inr [2, 5])" "owned 7 2 3 = Some (Inr [3, 6])"
  by code_simp+

text \<open>
  Without the bound the claim fails: with \<open>n = INT_MAX\<close> and one process the loop visits
  \<open>1, ..., INT_MAX\<close> and then \<^verbatim>\<open>i += 1\<close> overflows, so the loop yields no index set.
\<close>

theorem owned_overflow_counterexample:
  "owned 2147483647 0 1 = Some (Inl SignedOverflow) \<and>
   (\<Union>r\<in>{0..<1}. set (owned_indices 2147483647 r 1)) \<noteq> {1..2147483647}"
proof -
  have a: "add_int 0 1 = Inr 1" by (simp add: add_int_def INT_MAX_def INT_MIN_def)
  have "for_loop (\<lambda>i xs. Inr (xs @ [i])) 1 2147483647 1 [] = Some (Inl SignedOverflow)"
    by (rule for_loop_overflow) (simp_all add: INT_MAX_def INT_MIN_def)
  then have o: "owned 2147483647 0 1 = Some (Inl SignedOverflow)"
    by (simp add: owned_def a)
  then have "owned_indices 2147483647 0 1 = []" by (simp add: owned_indices_def)
  moreover have "{0..<1::int} = {0}" by auto
  ultimately have "(\<Union>r\<in>{0..<1}. set (owned_indices 2147483647 r 1)) = {}" by simp
  moreover have "(1::int) \<in> {1..2147483647}" by simp
  ultimately show ?thesis using o by blast
qed


section \<open>Claims about the reduction\<close>

text \<open>
  Claim C2, as amended. Take \<open>n \<ge> 1\<close> and a group of \<open>p \<ge> 1\<close> processes with
  \<open>n + p \<le> INT_MAX\<close>, whatever rounds were played before, a rounding that preserves signs
  and is accurate (\<open>exact\<close> and \<open>binary64\<close> are), and any schedule by which
  \<^verbatim>\<open>MPI_Reduce\<close> adds the partial result of every rank once. The round with granularity
  \<open>n\<close> completes on the group and on a single worker, a group of size 1. The total that
  \<^verbatim>\<open>MPI_Reduce\<close> delivers to the coordinator is the sum of the partial results \<^verbatim>\<open>mypi\<close>
  of all ranks, added by the schedule with one rounding per addition, and it is the
  total reported. The total of the group and the total of the single worker differ by at
  most \<open>(n + p + 20) / 2 ^ 48\<close>, whatever the schedule, and in exact arithmetic they are
  equal.
\<close>

theorem reduced_total_equals_sequential:
  assumes "1 \<le> n" "1 \<le> p" "n + int p \<le> INT_MAX"
    and "sign_preserving rnd" "accurate rnd"
    and "schedule_of p sch" "schedule_of 1 sch1"
    and "main rnd p junk ins = Inr (AwaitingInput g out)"
    and "main rnd 1 junk1 ins1 = Inr (AwaitingInput g1 out1)"
  shows "\<exists>g' rep g1' rep1.
           main rnd p junk (ins @ [(n, clk, sch)]) = Inr (AwaitingInput g' (out @ [rep])) \<and>
           main rnd 1 junk1 (ins1 @ [(n, clk1, sch1)]) = Inr (AwaitingInput g1' (out1 @ [rep1])) \<and>
           v_pi (g' ! 0) = reduce_sum rnd sch (map v_mypi g') \<and>
           v_pi (g1' ! 0) = v_mypi (g1' ! 0) \<and>
           approximation rep = v_pi (g' ! 0) \<and>
           approximation rep1 = v_pi (g1' ! 0) \<and>
           \<bar>v_pi (g' ! 0) - v_pi (g1' ! 0)\<bar> \<le> (of_int n + of_nat p + 20) / 2 ^ 48 \<and>
           (rnd = exact \<longrightarrow> v_pi (g' ! 0) = sum_list (map v_mypi g') \<and>
                            v_pi (g' ! 0) = v_pi (g1' ! 0))"
proof -
  have n: "n \<noteq> 0" and bp: "int p \<le> INT_MAX" and b1: "int 1 \<le> INT_MAX" "n + int 1 \<le> INT_MAX"
    using assms(1-3) by (simp_all add: INT_MAX_def)
  from main_round_closed [OF assms(4) assms(2) n bp assms(3) assms(8), of clk sch]
  obtain g' rep where par:
    "main rnd p junk (ins @ [(n, clk, sch)]) = Inr (AwaitingInput g' (out @ [rep]))"
    "length g' = p"
    "\<And>r. r < p \<Longrightarrow> v_mypi (g' ! r) = scaled_once rnd n (int r) (int p)"
    "v_pi (g' ! 0) = reduce_sum rnd sch (map (\<lambda>r. scaled_once rnd n (int r) (int p)) [0..<p])"
    "approximation rep = v_pi (g' ! 0)" by blast
  from main_round_closed [OF assms(4) _ n b1 assms(9), of clk1 sch1]
  obtain g1' rep1 where seq:
    "main rnd 1 junk1 (ins1 @ [(n, clk1, sch1)]) = Inr (AwaitingInput g1' (out1 @ [rep1]))"
    "v_mypi (g1' ! 0) = scaled_once rnd n 0 1"
    "v_pi (g1' ! 0) = reduce_sum rnd sch1 (map (\<lambda>r. scaled_once rnd n (int r) (int 1)) [0..<1])"
    "approximation rep1 = v_pi (g1' ! 0)" by auto
  have m: "map v_mypi g' = map (\<lambda>r. scaled_once rnd n (int r) (int p)) [0..<p]"
    using par(2,3) by (intro nth_equalityI) simp_all
  have s: "v_pi (g' ! 0) = reduce_sum rnd sch (map v_mypi g')"
    using par(4) m by simp
  have s1: "v_pi (g1' ! 0) = v_mypi (g1' ! 0)"
    using seq(2,3) by (simp add: schedule_of_single [OF assms(7)])
  let ?k = "20 + nat n + p"
  have "near (20 + nat n + 1) (v_pi (g1' ! 0)) (scaled_once exact n 0 1)"
    using near_total [OF assms(5) assms(1) _ assms(7)] seq(3) by simp
  then have n1: "near ?k (v_pi (g1' ! 0)) (scaled_once exact n 0 1)"
    by (rule near_mono) (use assms(2) in simp)
  have np: "near ?k (v_pi (g' ! 0)) (scaled_once exact n 0 1)"
    using near_total [OF assms(5) assms(1,2,6)] par(4) by simp
  have "\<bar>v_pi (g' ! 0) - v_pi (g1' ! 0)\<bar> \<le> of_nat ?k / 2 ^ 48"
    by (rule near_difference [OF np n1 scaled_once_exact_le_4 [OF assms(1)]
          tolerance_bound [OF assms(1,3)]])
  also have "rat_of_nat ?k = of_int n + of_nat p + 20"
    using assms(1) by simp
  finally have d: "\<bar>v_pi (g' ! 0) - v_pi (g1' ! 0)\<bar> \<le> (of_int n + of_nat p + 20) / 2 ^ 48" .
  have e: "v_pi (g' ! 0) = sum_list (map v_mypi g') \<and> v_pi (g' ! 0) = v_pi (g1' ! 0)"
    if "rnd = exact"
  proof -
    have "v_pi (g' ! 0) = sum_list (map v_mypi g')"
      using s that assms(6) par(2) by (simp add: reduce_sum_exact)
    moreover have "v_pi (g' ! 0) = scaled_once exact n 0 1"
      using par(4) total_exact [OF _ assms(6), of n] assms(2) that by simp
    moreover have "v_pi (g1' ! 0) = scaled_once exact n 0 1"
      using s1 seq(2) that by simp
    ultimately show ?thesis by simp
  qed
  from par(1,5) seq(1,4) s s1 d e
  have "main rnd p junk (ins @ [(n, clk, sch)]) = Inr (AwaitingInput g' (out @ [rep])) \<and>
           main rnd 1 junk1 (ins1 @ [(n, clk1, sch1)]) = Inr (AwaitingInput g1' (out1 @ [rep1])) \<and>
           v_pi (g' ! 0) = reduce_sum rnd sch (map v_mypi g') \<and>
           v_pi (g1' ! 0) = v_mypi (g1' ! 0) \<and>
           approximation rep = v_pi (g' ! 0) \<and>
           approximation rep1 = v_pi (g1' ! 0) \<and>
           \<bar>v_pi (g' ! 0) - v_pi (g1' ! 0)\<bar> \<le> (of_int n + of_nat p + 20) / 2 ^ 48 \<and>
           (rnd = exact \<longrightarrow> v_pi (g' ! 0) = sum_list (map v_mypi g') \<and>
                            v_pi (g' ! 0) = v_pi (g1' ! 0))" by blast
  then show ?thesis by blast
qed

text \<open>
  The theorem in binary64 for \<open>n = 1000\<close> on a group of four processes that add pairwise,
  ranks 0 and 1, ranks 2 and 3, then the two sums: the bound is \<open>1024 / 2 ^ 48\<close>, below
  \<open>1 / 10 ^ 9\<close>. And the theorem in exact arithmetic for \<open>n = 4\<close> on a group of two. All
  four runs are in their first round.
\<close>

theorem reduced_total_equals_sequential_witness:
  "((1::int) \<le> 1000 \<and> (1::nat) \<le> 4 \<and> (1000::int) + int 4 \<le> INT_MAX \<and>
    sign_preserving binary64 \<and> accurate binary64 \<and>
    schedule_of 4 (Combine (Combine (Rank 0) (Rank 1)) (Combine (Rank 2) (Rank 3))) \<and>
    schedule_of 1 (Rank 0) \<and>
    main binary64 4 (\<lambda>r. blank) [] = Inr (AwaitingInput (startup 4 (\<lambda>r. blank)) []) \<and>
    main binary64 1 (\<lambda>r. blank) [] = Inr (AwaitingInput (startup 1 (\<lambda>r. blank)) []) \<and>
    (\<exists>g' rep g1' rep1.
       main binary64 4 (\<lambda>r. blank)
         ([] @ [(1000, \<lambda>r. (0, 1),
                 Combine (Combine (Rank 0) (Rank 1)) (Combine (Rank 2) (Rank 3)))]) =
         Inr (AwaitingInput g' ([] @ [rep])) \<and>
       main binary64 1 (\<lambda>r. blank) ([] @ [(1000, \<lambda>r. (0, 1), Rank 0)]) =
         Inr (AwaitingInput g1' ([] @ [rep1])) \<and>
       v_pi (g' ! 0) =
         reduce_sum binary64 (Combine (Combine (Rank 0) (Rank 1)) (Combine (Rank 2) (Rank 3)))
           (map v_mypi g') \<and>
       approximation rep = v_pi (g' ! 0) \<and>
       approximation rep1 = v_pi (g1' ! 0) \<and>
       \<bar>approximation rep - approximation rep1\<bar> \<le> 1 / 10 ^ 9)) \<and>
   ((1::int) \<le> 4 \<and> (1::nat) \<le> 2 \<and> (4::int) + int 2 \<le> INT_MAX \<and>
    sign_preserving exact \<and> accurate exact \<and>
    schedule_of 2 (Combine (Rank 1) (Rank 0)) \<and> schedule_of 1 (Rank 0) \<and>
    main exact 2 (\<lambda>r. blank) [] = Inr (AwaitingInput (startup 2 (\<lambda>r. blank)) []) \<and>
    main exact 1 (\<lambda>r. blank) [] = Inr (AwaitingInput (startup 1 (\<lambda>r. blank)) []) \<and>
    (\<exists>g' rep g1' rep1.
       main exact 2 (\<lambda>r. blank) ([] @ [(4, \<lambda>r. (0, 1), Combine (Rank 1) (Rank 0))]) =
         Inr (AwaitingInput g' ([] @ [rep])) \<and>
       main exact 1 (\<lambda>r. blank) ([] @ [(4, \<lambda>r. (0, 1), Rank 0)]) =
         Inr (AwaitingInput g1' ([] @ [rep1])) \<and>
       v_pi (g' ! 0) = sum_list (map v_mypi g') \<and>
       v_pi (g' ! 0) = v_mypi (g1' ! 0) \<and>
       approximation rep = approximation rep1))"
proof -
  let ?t = "Combine (Combine (Rank 0) (Rank 1)) (Combine (Rank 2) (Rank 3))"
  have s4: "schedule_of 4 ?t"
    by (auto simp: schedule_of_def)
  have s1: "schedule_of 1 (Rank 0)"
    by (auto simp: schedule_of_def)
  have s2: "schedule_of 2 (Combine (Rank 1) (Rank 0))"
    by (auto simp: schedule_of_def)
  have h1: "(1::int) \<le> 1000" "(1::nat) \<le> 4" "(1000::int) + int 4 \<le> INT_MAX"
    "sign_preserving binary64" "accurate binary64"
    "main binary64 4 (\<lambda>r. blank) [] = Inr (AwaitingInput (startup 4 (\<lambda>r. blank)) [])"
    "main binary64 1 (\<lambda>r. blank) [] = Inr (AwaitingInput (startup 1 (\<lambda>r. blank)) [])"
    by (simp_all add: INT_MAX_def main_start sign_preserving_binary64 accurate_binary64)
  note h = h1(1-5) s4 s1 h1(6,7)
  from reduced_total_equals_sequential [OF h, of "\<lambda>r. (0, 1)" "\<lambda>r. (0, 1)"]
  obtain g' rep g1' rep1 where c:
    "main binary64 4 (\<lambda>r. blank) ([] @ [(1000, \<lambda>r. (0, 1), ?t)]) =
       Inr (AwaitingInput g' ([] @ [rep]))"
    "main binary64 1 (\<lambda>r. blank) ([] @ [(1000, \<lambda>r. (0, 1), Rank 0)]) =
       Inr (AwaitingInput g1' ([] @ [rep1]))"
    "v_pi (g' ! 0) = reduce_sum binary64 ?t (map v_mypi g')"
    "approximation rep = v_pi (g' ! 0)"
    "approximation rep1 = v_pi (g1' ! 0)"
    "\<bar>v_pi (g' ! 0) - v_pi (g1' ! 0)\<bar> \<le> (of_int 1000 + of_nat 4 + 20) / 2 ^ 48"
    by blast
  have "(of_int 1000 + of_nat 4 + 20) / 2 ^ 48 \<le> (1::rat) / 10 ^ 9" by simp
  with c(6) have "\<bar>approximation rep - approximation rep1\<bar> \<le> 1 / 10 ^ 9"
    unfolding c(4,5) by (rule order_trans)
  with c(1-5) have b: "\<exists>g' rep g1' rep1.
       main binary64 4 (\<lambda>r. blank) ([] @ [(1000, \<lambda>r. (0, 1), ?t)]) =
         Inr (AwaitingInput g' ([] @ [rep])) \<and>
       main binary64 1 (\<lambda>r. blank) ([] @ [(1000, \<lambda>r. (0, 1), Rank 0)]) =
         Inr (AwaitingInput g1' ([] @ [rep1])) \<and>
       v_pi (g' ! 0) = reduce_sum binary64 ?t (map v_mypi g') \<and>
       approximation rep = v_pi (g' ! 0) \<and>
       approximation rep1 = v_pi (g1' ! 0) \<and>
       \<bar>approximation rep - approximation rep1\<bar> \<le> 1 / 10 ^ 9" by blast
  have k1: "(1::int) \<le> 4" "(1::nat) \<le> 2" "(4::int) + int 2 \<le> INT_MAX"
    "sign_preserving exact" "accurate exact"
    "main exact 2 (\<lambda>r. blank) [] = Inr (AwaitingInput (startup 2 (\<lambda>r. blank)) [])"
    "main exact 1 (\<lambda>r. blank) [] = Inr (AwaitingInput (startup 1 (\<lambda>r. blank)) [])"
    by (simp_all add: INT_MAX_def main_start sign_preserving_exact accurate_exact)
  note k = k1(1-5) s2 s1 k1(6,7)
  from reduced_total_equals_sequential [OF k, of "\<lambda>r. (0, 1)" "\<lambda>r. (0, 1)"]
  obtain e' rp e1' rp1 where d:
    "main exact 2 (\<lambda>r. blank) ([] @ [(4, \<lambda>r. (0, 1), Combine (Rank 1) (Rank 0))]) =
       Inr (AwaitingInput e' ([] @ [rp]))"
    "main exact 1 (\<lambda>r. blank) ([] @ [(4, \<lambda>r. (0, 1), Rank 0)]) =
       Inr (AwaitingInput e1' ([] @ [rp1]))"
    "v_pi (e1' ! 0) = v_mypi (e1' ! 0)"
    "approximation rp = v_pi (e' ! 0)"
    "approximation rp1 = v_pi (e1' ! 0)"
    "v_pi (e' ! 0) = sum_list (map v_mypi e')"
    "v_pi (e' ! 0) = v_pi (e1' ! 0)"
    by blast
  then have "\<exists>g' rep g1' rep1.
       main exact 2 (\<lambda>r. blank) ([] @ [(4, \<lambda>r. (0, 1), Combine (Rank 1) (Rank 0))]) =
         Inr (AwaitingInput g' ([] @ [rep])) \<and>
       main exact 1 (\<lambda>r. blank) ([] @ [(4, \<lambda>r. (0, 1), Rank 0)]) =
         Inr (AwaitingInput g1' ([] @ [rep1])) \<and>
       v_pi (g' ! 0) = sum_list (map v_mypi g') \<and>
       v_pi (g' ! 0) = v_mypi (g1' ! 0) \<and>
       approximation rep = approximation rep1"
    by (metis (no_types, lifting))
  with b h k show ?thesis by blast
qed

text \<open>
  Without the bound the claim fails: with \<open>n = INT_MAX - 1\<close> and two processes, rank 1
  visits the even indices up to \<open>n\<close> and then \<^verbatim>\<open>i += 2\<close> overflows, so the group delivers
  no total, while a single worker completes the round.
\<close>

theorem reduced_total_overflow_counterexample:
  "main exact 2 (\<lambda>r. blank) [(2147483646, \<lambda>r. (0, 0), Combine (Rank 0) (Rank 1))] =
     Inl SignedOverflow \<and>
   (\<exists>g out. main exact 1 (\<lambda>r. blank) [(2147483646, \<lambda>r. (0, 0), Rank 0)] =
      Inr (AwaitingInput g out))"
proof
  have "main exact 2 (\<lambda>r. blank)
          ([] @ (2147483646, \<lambda>r. (0, 0), Combine (Rank 0) (Rank 1)) # []) = Inl SignedOverflow"
    by (rule main_round_overflow [OF sign_preserving_exact _ main_start, where r = 1])
      (simp_all add: INT_MAX_def)
  then show "main exact 2 (\<lambda>r. blank) [(2147483646, \<lambda>r. (0, 0), Combine (Rank 0) (Rank 1))] =
     Inl SignedOverflow"
    by simp
  have "\<exists>g' rep. main exact 1 (\<lambda>r. blank) ([] @ [(2147483646, \<lambda>r. (0, 0), Rank 0)]) =
          Inr (AwaitingInput g' ([] @ [rep]))"
    using main_round_closed [OF sign_preserving_exact _ _ _ _ main_start,
        of 1 2147483646 "\<lambda>r. blank" "\<lambda>r. (0, 0)"]
    by (simp add: INT_MAX_def) blast
  then show "\<exists>g out. main exact 1 (\<lambda>r. blank) [(2147483646, \<lambda>r. (0, 0), Rank 0)] =
          Inr (AwaitingInput g out)"
    by auto
qed

section \<open>Claims about the partial sum of a rank\<close>

text \<open>
  Claim C3, as amended. Take a rounding that preserves signs (exact arithmetic and
  binary64 are two), \<open>n \<ge> 1\<close> and a rank of a group of \<open>numprocs\<close> processes, \<open>n\<close> and
  \<open>numprocs\<close> being values of \<^verbatim>\<open>int\<close>. If \<open>j + numprocs \<le> INT_MAX\<close> for every index \<open>j\<close> of
  the progression \<open>rank + 1, rank + 1 + numprocs, ...\<close> up to \<open>n\<close>, a bound on this rank
  alone, then the integration step returns; \<open>h\<close> is \<open>1 / n\<close>; the accumulator \<^verbatim>\<open>sum\<close>
  holds the kernel values \<open>4 / (1 + x * x)\<close> at the midpoints \<open>x = h * (i - 0.5)\<close> of the
  owned indices, added unscaled in the order of the visits; and the partial result is
  \<open>h * sum\<close>, the scaling by \<open>h\<close> applied once, after the loop. In exact arithmetic this
  is the sum over the owned indices of \<open>h * 4 / (1 + (h * (i - 0.5))\<^sup>2)\<close>, the value
  \<open>partialSum\<close> of the specification. If the bound fails, the step ends in the overflow
  of the loop counter.
\<close>

theorem partial_sum_scaled_after_loop:
  assumes "sign_preserving rnd"
    and "1 \<le> v_n st" "v_n st \<le> INT_MAX"
    and "0 \<le> v_myid st" "v_myid st < v_numprocs st" "v_numprocs st \<le> INT_MAX"
  shows "if \<forall>j \<in> set (strided (v_myid st + 1) (v_n st) (v_numprocs st)).
              j + v_numprocs st \<le> INT_MAX
         then (\<exists>st'. integrate rnd st = Inr st' \<and>
                 v_h st' = step_width rnd (v_n st) \<and>
                 v_sum st' = kernel_sum rnd (v_h st') 0
                               (owned_indices (v_n st) (v_myid st) (v_numprocs st)) \<and>
                 v_mypi st' = dmul rnd (v_h st') (v_sum st')) \<and>
              (\<exists>st'. integrate exact st = Inr st' \<and>
                 v_mypi st' = partialSum exact (v_n st) (v_myid st) (v_numprocs st) \<and>
                 v_mypi st' =
                   (\<Sum>j \<in> set (owned_indices (v_n st) (v_myid st) (v_numprocs st)).
                      1 / of_int (v_n st) *
                        (4 / (1 + (1 / of_int (v_n st) * (of_int j - 1 / 2))\<^sup>2))))
         else integrate rnd st = Inl SignedOverflow"
proof (cases "\<forall>j \<in> set (strided (v_myid st + 1) (v_n st) (v_numprocs st)).
                j + v_numprocs st \<le> INT_MAX")
  case True
  have n: "v_n st \<noteq> 0" and p: "0 < v_numprocs st"
    using assms(2,4,5) by simp_all
  have own: "owned_indices (v_n st) (v_myid st) (v_numprocs st) =
               strided (v_myid st + 1) (v_n st) (v_numprocs st)"
    using owned_strided_bound [OF p assms(4,5,6) True] by (simp add: owned_indices_def)
  from integrate_closed_bound [OF assms(1) n assms(4,5,6) True]
  have "\<exists>st'. integrate rnd st = Inr st' \<and>
            v_h st' = step_width rnd (v_n st) \<and>
            v_sum st' = kernel_sum rnd (v_h st') 0
                          (owned_indices (v_n st) (v_myid st) (v_numprocs st)) \<and>
            v_mypi st' = dmul rnd (v_h st') (v_sum st')"
    by (auto simp: own scaled_once_def)
  moreover
  from integrate_closed_bound [OF sign_preserving_exact n assms(4,5,6) True]
  have "\<exists>st'. integrate exact st = Inr st' \<and>
            v_mypi st' = partialSum exact (v_n st) (v_myid st) (v_numprocs st) \<and>
            v_mypi st' =
              (\<Sum>j \<in> set (owned_indices (v_n st) (v_myid st) (v_numprocs st)).
                 1 / of_int (v_n st) * (4 / (1 + (1 / of_int (v_n st) * (of_int j - 1 / 2))\<^sup>2)))"
    by (auto simp: own scaled_once_eq_partialSum_exact partialSum_exact)
  ultimately show ?thesis using True by simp
next
  case False
  have n: "v_n st \<noteq> 0" using assms(2) by simp
  from False have "\<exists>j \<in> set (strided (v_myid st + 1) (v_n st) (v_numprocs st)).
           INT_MAX < j + v_numprocs st" by (simp add: not_le)
  from integrate_overflow_bound [OF assms(1) n assms(3-6) this] False
  show ?thesis by simp
qed

text \<open>
  The theorem for binary64, \<open>n = 5\<close> and rank 1 of two; and for \<open>n = INT_MAX - 1\<close> and
  rank 0 of two, which visits the odd indices and finishes its loop although
  \<open>n + numprocs\<close> exceeds \<open>INT_MAX\<close>.
\<close>

theorem partial_sum_scaled_after_loop_witness:
  "(sign_preserving binary64 \<and>
    1 \<le> v_n (blank\<lparr>v_n := 5, v_myid := 1, v_numprocs := 2\<rparr>) \<and>
    v_n (blank\<lparr>v_n := 5, v_myid := 1, v_numprocs := 2\<rparr>) \<le> INT_MAX \<and>
    0 \<le> v_myid (blank\<lparr>v_n := 5, v_myid := 1, v_numprocs := 2\<rparr>) \<and>
    v_myid (blank\<lparr>v_n := 5, v_myid := 1, v_numprocs := 2\<rparr>)
      < v_numprocs (blank\<lparr>v_n := 5, v_myid := 1, v_numprocs := 2\<rparr>) \<and>
    v_numprocs (blank\<lparr>v_n := 5, v_myid := 1, v_numprocs := 2\<rparr>) \<le> INT_MAX \<and>
    set (strided 2 5 2) \<subseteq> {j. j + 2 \<le> INT_MAX} \<and>
    (\<exists>st'. integrate binary64 (blank\<lparr>v_n := 5, v_myid := 1, v_numprocs := 2\<rparr>) = Inr st' \<and>
       v_h st' = step_width binary64 5 \<and>
       v_sum st' = kernel_sum binary64 (v_h st') 0 (owned_indices 5 1 2) \<and>
       v_mypi st' = dmul binary64 (v_h st') (v_sum st'))) \<and>
   (1 \<le> v_n (blank\<lparr>v_n := 2147483646, v_myid := 0, v_numprocs := 2\<rparr>) \<and>
    v_n (blank\<lparr>v_n := 2147483646, v_myid := 0, v_numprocs := 2\<rparr>) \<le> INT_MAX \<and>
    INT_MAX < v_n (blank\<lparr>v_n := 2147483646, v_myid := 0, v_numprocs := 2\<rparr>)
      + v_numprocs (blank\<lparr>v_n := 2147483646, v_myid := 0, v_numprocs := 2\<rparr>) \<and>
    set (strided 1 2147483646 2) \<subseteq> {j. j + 2 \<le> INT_MAX} \<and>
    (\<exists>st'. integrate binary64 (blank\<lparr>v_n := 2147483646, v_myid := 0, v_numprocs := 2\<rparr>)
              = Inr st' \<and>
       v_h st' = step_width binary64 2147483646 \<and>
       v_sum st' = kernel_sum binary64 (v_h st') 0 (owned_indices 2147483646 0 2) \<and>
       v_mypi st' = dmul binary64 (v_h st') (v_sum st')))"
proof -
  let ?st = "blank\<lparr>v_n := 5, v_myid := 1, v_numprocs := 2\<rparr>"
  let ?su = "blank\<lparr>v_n := 2147483646, v_myid := 0, v_numprocs := 2\<rparr>"
  have h: "1 \<le> v_n ?st" "v_n ?st \<le> INT_MAX" "0 \<le> v_myid ?st" "v_myid ?st < v_numprocs ?st"
    "v_numprocs ?st \<le> INT_MAX"
    by (simp_all add: INT_MAX_def)
  have b: "\<forall>j \<in> set (strided (v_myid ?st + 1) (v_n ?st) (v_numprocs ?st)).
             j + v_numprocs ?st \<le> INT_MAX"
    by (simp add: set_strided INT_MAX_def)
  have k: "1 \<le> v_n ?su" "v_n ?su \<le> INT_MAX" "0 \<le> v_myid ?su" "v_myid ?su < v_numprocs ?su"
    "v_numprocs ?su \<le> INT_MAX" "INT_MAX < v_n ?su + v_numprocs ?su"
    by (simp_all add: INT_MAX_def)
  have "j + 2 \<le> INT_MAX" if "j \<in> set (strided 1 2147483646 2)" for j
  proof -
    from that have "j \<le> 2147483646" "(j - 1) mod 2 = 0" by (simp_all add: set_strided)
    then have "j \<le> 2147483645" by presburger
    then show ?thesis by (simp add: INT_MAX_def)
  qed
  then have c: "\<forall>j \<in> set (strided (v_myid ?su + 1) (v_n ?su) (v_numprocs ?su)).
             j + v_numprocs ?su \<le> INT_MAX"
    by simp
  from partial_sum_scaled_after_loop [OF sign_preserving_binary64 h]
    partial_sum_scaled_after_loop [OF sign_preserving_binary64 k(1-5)]
    b c h k sign_preserving_binary64
  show ?thesis by (simp add: subset_iff)
qed

text \<open>
  The claim as stated, with \<open>h * f(x)\<close> accumulated term by term, fails on doubles: for
  \<open>n = 5\<close> and rank 1 of two (owned indices 2 and 4) the program computes
  \<open>5723434290310143 / 2\<^sup>5\<^sup>2\<close>, and accumulating \<open>h * f(x)\<close> gives
  \<open>5589291299131 / 2\<^sup>4\<^sup>2 = 5723434290310144 / 2\<^sup>5\<^sup>2\<close>. It also fails near the end of
  the range of \<^verbatim>\<open>int\<close>: for \<open>n = INT_MAX\<close> and one process the loop counter overflows.
\<close>

theorem per_term_scaling_counterexample:
  "map_sum id v_mypi (integrate binary64 (blank\<lparr>v_n := 5, v_myid := 1, v_numprocs := 2\<rparr>))
     = Inr (5723434290310143 / 4503599627370496) \<and>
   partialSum binary64 5 1 2 = 5589291299131 / 4398046511104 \<and>
   integrate exact (blank\<lparr>v_n := 2147483647, v_myid := 0, v_numprocs := 1\<rparr>) = Inl SignedOverflow"
proof (intro conjI)
  let ?st = "blank\<lparr>v_n := 5, v_myid := 1, v_numprocs := 2\<rparr>"
  have "\<exists>st'. integrate binary64 ?st = Inr st' \<and> v_mypi st' = scaled_once binary64 5 1 2"
    using integrate_closed [OF sign_preserving_binary64, of ?st] by (simp add: INT_MAX_def) blast
  then show "map_sum id v_mypi (integrate binary64 ?st) = Inr (5723434290310143 / 4503599627370496)"
    by (auto simp: scaled_once_5_1_2)
  show "partialSum binary64 5 1 2 = 5589291299131 / 4398046511104"
    by (rule partialSum_5_1_2)
  show "integrate exact (blank\<lparr>v_n := 2147483647, v_myid := 0, v_numprocs := 1\<rparr>) = Inl SignedOverflow"
    by (rule integrate_overflow [OF sign_preserving_exact]) (simp_all add: INT_MAX_def)
qed

section \<open>Claims about the round loop\<close>

text \<open>
  Claim C4. Take a run of a group of \<open>p \<ge> 1\<close> processes that has reached the prompt, and
  let the coordinator read 0. Then the broadcast stores 0 in \<^verbatim>\<open>n\<close> of every rank, every
  rank leaves the loop in this round: no variable but \<^verbatim>\<open>n\<close> changes (no partial sum is
  computed, no reduction entered, nothing printed), and the inputs after the 0 are never
  read. Conversely, a run that has left the loop has read a 0, in the round it left the
  loop, with all ranks at the prompt before it. The ranks never disagree at line 20.
\<close>

theorem zero_broadcast_stops_every_rank:
  assumes "1 \<le> p"
  shows "(main rnd p junk ins = Inr (AwaitingInput g out) \<longrightarrow>
            main rnd p junk (ins @ (0, clk, sch) # rest) =
              Inr (Exited (replicate p 0) (map (\<lambda>st. st\<lparr>v_n := 0, mpi_live := False\<rparr>) g) out)) \<and>
         (main rnd p junk ins = Inr (Exited codes g' out') \<longrightarrow>
            (\<exists>pre clk' sch' rest' g0. ins = pre @ (0, clk', sch') # rest' \<and>
               main rnd p junk pre = Inr (AwaitingInput g0 out') \<and>
               g' = map (\<lambda>st. st\<lparr>v_n := 0, mpi_live := False\<rparr>) g0)) \<and>
         main rnd p junk ins \<noteq> Inl CollectiveMismatch"
proof (intro conjI impI)
  assume "main rnd p junk ins = Inr (AwaitingInput g out)"
  then show "main rnd p junk (ins @ (0, clk, sch) # rest) =
              Inr (Exited (replicate p 0) (map (\<lambda>st. st\<lparr>v_n := 0, mpi_live := False\<rparr>) g) out)"
    by (rule main_quit [OF assms])
next
  assume "main rnd p junk ins = Inr (Exited codes g' out')"
  from main_exit_cases [OF assms this]
  show "\<exists>pre clk' sch' rest' g0. ins = pre @ (0, clk', sch') # rest' \<and>
               main rnd p junk pre = Inr (AwaitingInput g0 out') \<and>
               g' = map (\<lambda>st. st\<lparr>v_n := 0, mpi_live := False\<rparr>) g0"
    by blast
next
  show "main rnd p junk ins \<noteq> Inl CollectiveMismatch"
    using main_error_kind(1) [of rnd p junk ins CollectiveMismatch] by auto
qed

text \<open>The theorem on two processes: a 0 in the first round, followed by an unread 7.\<close>

theorem zero_broadcast_stops_every_rank_witness:
  "(1::nat) \<le> 2 \<and>
   main binary64 2 (\<lambda>r. blank) [] = Inr (AwaitingInput (startup 2 (\<lambda>r. blank)) []) \<and>
   main binary64 2 (\<lambda>r. blank)
     ([] @ (0, \<lambda>r. (0, 0), Combine (Rank 0) (Rank 1)) #
        [(7, \<lambda>r. (0, 0), Combine (Rank 0) (Rank 1))]) =
     Inr (Exited (replicate 2 0)
            (map (\<lambda>st. st\<lparr>v_n := 0, mpi_live := False\<rparr>) (startup 2 (\<lambda>r. blank))) [])"
proof -
  have h: "(1::nat) \<le> 2" by simp
  have m: "main binary64 2 (\<lambda>r. blank) [] = Inr (AwaitingInput (startup 2 (\<lambda>r. blank)) [])"
    by (rule main_start)
  from zero_broadcast_stops_every_rank [OF h, of binary64 "\<lambda>r. blank" "[]"
      "startup 2 (\<lambda>r. blank)" "[]" "\<lambda>r. (0, 0)" "Combine (Rank 0) (Rank 1)"
      "[(7, \<lambda>r. (0, 0), Combine (Rank 0) (Rank 1))]"] h m
  show ?thesis by blast
qed

text \<open>
  Claim C5. Take a run of a group of \<open>p \<ge> 1\<close> processes (\<open>p\<close> an \<^verbatim>\<open>int\<close>) that has reached
  the prompt, and let the coordinator read \<open>n < 0\<close>. Then no error is reported and the
  loop is not left: the round completes with the ranks back at the prompt; the loop of
  every rank visits no index; every rank has \<^verbatim>\<open>sum\<close> equal to 0 and contributes the
  partial result \<open>h * 0.0\<close>; the reduction delivers the sum of these to the coordinator,
  which reports it.
\<close>

theorem negative_granularity_round:
  assumes "sign_preserving rnd" "1 \<le> p" "int p \<le> INT_MAX"
    and "main rnd p junk ins = Inr (AwaitingInput g out)"
    and "n < 0"
  shows "\<exists>g' rep. main rnd p junk (ins @ [(n, clk, sch)]) = Inr (AwaitingInput g' (out @ [rep])) \<and>
           length g' = p \<and>
           (\<forall>r < p. owned n (int r) (int p) = Some (Inr []) \<and>
                    v_n (g' ! r) = n \<and> v_sum (g' ! r) = 0 \<and>
                    v_mypi (g' ! r) = dmul rnd (step_width rnd n) 0) \<and>
           v_pi (g' ! 0) = reduce_sum rnd sch (replicate p (dmul rnd (step_width rnd n) 0)) \<and>
           approximation rep = v_pi (g' ! 0)"
proof -
  note r = main_reached [OF assms(2,4)]
  have v: "n \<noteq> 0" using assms(5) by simp
  let ?g1 = "start_timer clk (map (\<lambda>st. st\<lparr>v_n := n\<rparr>) g)"
  define f where "f = (\<lambda>st :: vars. st\<lparr>v_h := step_width rnd n, v_sum := 0, v_i := v_myid st + 1,
                   v_mypi := dmul rnd (step_width rnd n) 0\<rparr>)"
  have each: "integrate rnd (?g1 ! k) = Inr (f (?g1 ! k))" if "k < length g" for k
  proof -
    have id: "v_myid (?g1 ! k) = int k" "v_n (?g1 ! k) = n"
      using that wf_groupD(3) [OF r(1) that] by simp_all
    have "int k + 1 \<le> INT_MAX" using that r(2) assms(3) by simp
    moreover have "INT_MIN \<le> int k + 1" by (simp add: INT_MIN_def)
    ultimately show ?thesis
      using integrate_skip [OF assms(1), of "?g1 ! k"] assms(5) v id by (simp add: f_def)
  qed
  then have "integrate_all rnd ?g1 = Inr (map f ?g1)"
    by (simp add: integrate_all_Inr)
  then obtain g' new where o: "one_round rnd n clk sch g = Inr (False, g', new)"
    by (simp add: one_round_run [OF r(1) v])
  note c = one_round_continue [OF r(1) v o]
  have m: "main rnd p junk (ins @ [(n, clk, sch)]) = Inr (AwaitingInput g' (out @ new))"
    by (simp add: main_snoc_last [OF assms(2,4)] o)
  have rank: "owned n (int k) (int p) = Some (Inr []) \<and> v_n (g' ! k) = n \<and> v_sum (g' ! k) = 0 \<and>
              v_mypi (g' ! k) = dmul rnd (step_width rnd n) 0" if "k < p" for k
  proof -
    have k: "k < length g" using that r(2) by simp
    from c(5) [OF k] obtain u where
      u: "integrate rnd ((g ! k)\<lparr>v_n := n, v_t0 := fst (clk k)\<rparr>) = Inr u"
      "g' ! k = u\<lparr>v_pi := v_pi (g' ! k), v_t1 := snd (clk k)\<rparr>" by blast
    from each [OF k] u(1) k have "u = f ((g ! k)\<lparr>v_n := n, v_t0 := fst (clk k)\<rparr>)" by simp
    then have "v_n u = n" "v_sum u = 0" "v_mypi u = dmul rnd (step_width rnd n) 0"
      by (simp_all add: f_def)
    then have "v_n (u\<lparr>v_pi := v_pi (g' ! k), v_t1 := snd (clk k)\<rparr>) = n"
      "v_sum (u\<lparr>v_pi := v_pi (g' ! k), v_t1 := snd (clk k)\<rparr>) = 0"
      "v_mypi (u\<lparr>v_pi := v_pi (g' ! k), v_t1 := snd (clk k)\<rparr>) = dmul rnd (step_width rnd n) 0"
      by simp_all
    then have "v_n (g' ! k) = n" "v_sum (g' ! k) = 0"
      "v_mypi (g' ! k) = dmul rnd (step_width rnd n) 0"
      using u(2) by simp_all
    moreover have "owned n (int k) (int p) = Some (Inr [])"
      using that assms(3,5) by (intro owned_skip) (simp_all add: INT_MIN_def)
    ultimately show ?thesis by simp
  qed
  have "map v_mypi g' = replicate p (dmul rnd (step_width rnd n) 0)"
    using rank c(3) r(2) by (intro nth_equalityI) simp_all
  then have pi: "v_pi (g' ! 0) = reduce_sum rnd sch (replicate p (dmul rnd (step_width rnd n) 0))"
    using c(6) by simp
  from c(4) obtain rep where rep: "new = [rep]" "approximation rep = v_pi (g' ! 0)" by simp
  have "main rnd p junk (ins @ [(n, clk, sch)]) = Inr (AwaitingInput g' (out @ [rep])) \<and>
           length g' = p \<and>
           (\<forall>r < p. owned n (int r) (int p) = Some (Inr []) \<and>
                    v_n (g' ! r) = n \<and> v_sum (g' ! r) = 0 \<and>
                    v_mypi (g' ! r) = dmul rnd (step_width rnd n) 0) \<and>
           v_pi (g' ! 0) = reduce_sum rnd sch (replicate p (dmul rnd (step_width rnd n) 0)) \<and>
           approximation rep = v_pi (g' ! 0)"
    using m rep rank pi c(3) r(2) by simp
  then show ?thesis by blast
qed

text \<open>The theorem for binary64 on two processes reading \<open>- 3\<close> in their first round.\<close>

theorem negative_granularity_round_witness:
  "sign_preserving binary64 \<and> (1::nat) \<le> 2 \<and> int 2 \<le> INT_MAX \<and>
   main binary64 2 (\<lambda>r. blank) [] = Inr (AwaitingInput (startup 2 (\<lambda>r. blank)) []) \<and>
   (- 3 :: int) < 0 \<and>
   (\<exists>g' rep.
      main binary64 2 (\<lambda>r. blank) ([] @ [(- 3, \<lambda>r. (0, 1), Combine (Rank 0) (Rank 1))]) =
        Inr (AwaitingInput g' ([] @ [rep])) \<and>
      length g' = 2 \<and>
      (\<forall>r < 2. owned (- 3) (int r) (int 2) = Some (Inr []) \<and>
                v_n (g' ! r) = - 3 \<and> v_sum (g' ! r) = 0 \<and>
                v_mypi (g' ! r) = dmul binary64 (step_width binary64 (- 3)) 0) \<and>
      v_pi (g' ! 0) = reduce_sum binary64 (Combine (Rank 0) (Rank 1))
          (replicate 2 (dmul binary64 (step_width binary64 (- 3)) 0)) \<and>
      approximation rep = v_pi (g' ! 0))"
proof -
  have h: "(1::nat) \<le> 2" "int 2 \<le> INT_MAX"
    "main binary64 2 (\<lambda>r. blank) [] = Inr (AwaitingInput (startup 2 (\<lambda>r. blank)) [])"
    "(- 3 :: int) < 0"
    by (simp_all add: INT_MAX_def main_start)
  from negative_granularity_round [OF sign_preserving_binary64 h, of "\<lambda>r. (0, 1)"
      "Combine (Rank 0) (Rank 1)"]
    h sign_preserving_binary64
  show ?thesis by blast
qed

text \<open>
  Claim C6. For every \<open>n \<ge> 1\<close> and every group size \<open>numprocs\<close> (an \<^verbatim>\<open>int\<close>) with
  \<open>n < numprocs\<close>, a rank with \<open>rank + 1 > n\<close> owns no index, and its integration step
  returns, without an error, a state in which the accumulator is 0 and the partial result
  \<open>h * 0.0\<close> is exactly 0.
\<close>

theorem idle_rank_contributes_zero:
  assumes "sign_preserving rnd"
    and "1 \<le> v_n st" "v_n st < v_numprocs st" "v_numprocs st \<le> INT_MAX"
    and "v_n st < v_myid st + 1" "v_myid st < v_numprocs st"
  shows "owned (v_n st) (v_myid st) (v_numprocs st) = Some (Inr []) \<and>
         integrate rnd st =
           Inr (st\<lparr>v_h := step_width rnd (v_n st), v_sum := 0, v_i := v_myid st + 1, v_mypi := 0\<rparr>)"
proof -
  have lo: "INT_MIN \<le> v_myid st + 1" and hi: "v_myid st + 1 \<le> INT_MAX"
    using assms(2-6) by (simp_all add: INT_MIN_def)
  have n: "v_n st \<noteq> 0" using assms(2) by simp
  have "dmul rnd (step_width rnd (v_n st)) 0 = 0"
    by (simp add: dmul_def sign_preservingD(1) [OF assms(1)])
  then show ?thesis
    using integrate_skip [OF assms(1) n assms(5) lo hi] owned_skip [OF assms(5) lo hi]
    by simp
qed

text \<open>The example of the specification: \<open>n = 2\<close>, five processes, rank 3, in binary64.\<close>

theorem idle_rank_contributes_zero_witness:
  "sign_preserving binary64 \<and>
   1 \<le> v_n (blank\<lparr>v_n := 2, v_myid := 3, v_numprocs := 5\<rparr>) \<and>
   v_n (blank\<lparr>v_n := 2, v_myid := 3, v_numprocs := 5\<rparr>)
     < v_numprocs (blank\<lparr>v_n := 2, v_myid := 3, v_numprocs := 5\<rparr>) \<and>
   v_numprocs (blank\<lparr>v_n := 2, v_myid := 3, v_numprocs := 5\<rparr>) \<le> INT_MAX \<and>
   v_n (blank\<lparr>v_n := 2, v_myid := 3, v_numprocs := 5\<rparr>)
     < v_myid (blank\<lparr>v_n := 2, v_myid := 3, v_numprocs := 5\<rparr>) + 1 \<and>
   v_myid (blank\<lparr>v_n := 2, v_myid := 3, v_numprocs := 5\<rparr>)
     < v_numprocs (blank\<lparr>v_n := 2, v_myid := 3, v_numprocs := 5\<rparr>) \<and>
   owned 2 3 5 = Some (Inr []) \<and>
   integrate binary64 (blank\<lparr>v_n := 2, v_myid := 3, v_numprocs := 5\<rparr>) =
     Inr (blank\<lparr>v_n := 2, v_myid := 3, v_numprocs := 5, v_h := step_width binary64 2,
                v_sum := 0, v_i := 4, v_mypi := 0\<rparr>)"
proof -
  let ?st = "blank\<lparr>v_n := 2, v_myid := 3, v_numprocs := 5\<rparr>"
  have h: "1 \<le> v_n ?st" "v_n ?st < v_numprocs ?st" "v_numprocs ?st \<le> INT_MAX"
    "v_n ?st < v_myid ?st + 1" "v_myid ?st < v_numprocs ?st"
    by (simp_all add: INT_MAX_def)
  from idle_rank_contributes_zero [OF sign_preserving_binary64 h] h sign_preserving_binary64
  show ?thesis by simp
qed

text \<open>
  Claim C7. The integration step is a function of \<open>n\<close>, the rank and the group size
  alone: two process states that agree on these three variables, whatever the other
  variables hold from earlier rounds, come out of the step with the same \<^verbatim>\<open>h\<close>,
  \<^verbatim>\<open>sum\<close>, \<^verbatim>\<open>i\<close> and \<^verbatim>\<open>mypi\<close>, or with the same error, for every rounding. The step
  writes \<^verbatim>\<open>h\<close>, \<^verbatim>\<open>sum\<close>, \<^verbatim>\<open>x\<close>, \<^verbatim>\<open>i\<close> and \<^verbatim>\<open>mypi\<close> and nothing else; \<^verbatim>\<open>h\<close> is
  recomputed from \<^verbatim>\<open>n\<close>, \<^verbatim>\<open>sum\<close> restarts from 0 and adds the kernel values of the rank's
  indices, and \<^verbatim>\<open>mypi\<close> is \<open>h * sum\<close>. A rank that visits an index leaves in \<^verbatim>\<open>x\<close> a value
  that does not depend on the old one; an idle rank leaves \<^verbatim>\<open>x\<close> as it was.

  For a round of the program: take two runs of groups of the same size \<open>p\<close>, with any
  initial memories and any earlier rounds, both at the prompt, and let both read the same
  number, under clocks and schedules that may differ. Then both end in the same error,
  or both exit, or both return to the prompt, and then \<^verbatim>\<open>n\<close>, \<^verbatim>\<open>h\<close>, \<^verbatim>\<open>sum\<close>, \<^verbatim>\<open>i\<close> and
  \<^verbatim>\<open>mypi\<close> of every rank and \<^verbatim>\<open>x\<close> of every rank that owns an index are the same in both
  runs; the rank and the group size are as they were, \<^verbatim>\<open>done\<close> is 0 and the MPI
  context is held as before; \<^verbatim>\<open>t0\<close> and \<^verbatim>\<open>t1\<close> are the readings
  of the clock of the round, \<^verbatim>\<open>pi\<close> of rank 0 is the sum of the partial results by the
  schedule of the round, the same in both runs when the schedule is the same, and the
  report printed is made of these. The only values that a round carries over from
  earlier rounds are \<^verbatim>\<open>pi\<close> of the ranks other than 0 and \<^verbatim>\<open>x\<close> of the idle ranks, and
  nothing the round computes or prints depends on them.
\<close>

theorem partial_result_depends_on_triple_only:
  assumes "0 < v_numprocs st"
    and "v_n st = v_n st'" "v_myid st = v_myid st'" "v_numprocs st = v_numprocs st'"
    and "1 \<le> p"
    and "main rnd p junk ins = Inr (AwaitingInput g out)"
    and "main rnd p junk' ins' = Inr (AwaitingInput h out')"
  shows
    "map_sum id (\<lambda>u. (v_h u, v_sum u, v_i u, v_mypi u)) (integrate rnd st) =
       map_sum id (\<lambda>u. (v_h u, v_sum u, v_i u, v_mypi u)) (integrate rnd st') \<and>
     (\<forall>u. integrate rnd st = Inr u \<longrightarrow>
        u = st\<lparr>v_h := v_h u, v_sum := v_sum u, v_x := v_x u, v_i := v_i u, v_mypi := v_mypi u\<rparr> \<and>
        ddiv rnd 1 (int_to_double rnd (v_n st)) = Inr (v_h u) \<and>
        v_sum u = kernel_sum rnd (v_h u) 0 (strided (v_myid st + 1) (v_n st) (v_numprocs st)) \<and>
        v_mypi u = dmul rnd (v_h u) (v_sum u) \<and>
        (v_n st < v_myid st + 1 \<longrightarrow> v_x u = v_x st) \<and>
        (\<forall>u'. integrate rnd st' = Inr u' \<longrightarrow> v_myid st + 1 \<le> v_n st \<longrightarrow> v_x u = v_x u')) \<and>
     (\<forall>e. main rnd p junk (ins @ [(v, clk, sch)]) = Inl e \<longleftrightarrow>
          main rnd p junk' (ins' @ [(v, clk', sch')]) = Inl e) \<and>
     (\<forall>c g2 out2. main rnd p junk (ins @ [(v, clk, sch)]) = Inr (Exited c g2 out2) \<longrightarrow>
        (\<exists>h2. main rnd p junk' (ins' @ [(v, clk', sch')]) = Inr (Exited c h2 out') \<and> out2 = out)) \<and>
     (\<forall>g2 out2. main rnd p junk (ins @ [(v, clk, sch)]) = Inr (AwaitingInput g2 out2) \<longrightarrow>
        (\<exists>h2. main rnd p junk' (ins' @ [(v, clk', sch')]) =
                 Inr (AwaitingInput h2
                   (out' @ [Report (dsub rnd (snd (clk' 0)) (fst (clk' 0))) (v_pi (h2 ! 0))
                              (fabs (dsub rnd (v_pi (h2 ! 0)) M_PI))])) \<and>
               out2 = out @ [Report (dsub rnd (snd (clk 0)) (fst (clk 0))) (v_pi (g2 ! 0))
                               (fabs (dsub rnd (v_pi (g2 ! 0)) M_PI))] \<and>
               length g2 = p \<and> length h2 = p \<and>
               v_pi (g2 ! 0) = reduce_sum rnd sch (map v_mypi g2) \<and>
               v_pi (h2 ! 0) = reduce_sum rnd sch' (map v_mypi h2) \<and>
               (sch = sch' \<longrightarrow> v_pi (g2 ! 0) = v_pi (h2 ! 0)) \<and>
               (\<forall>r < p.
                  v_myid (g2 ! r) = int r \<and> v_myid (h2 ! r) = int r \<and>
                  v_numprocs (g2 ! r) = int p \<and> v_numprocs (h2 ! r) = int p \<and>
                  v_n (g2 ! r) = v \<and> v_n (h2 ! r) = v \<and>
                  v_done (g2 ! r) = 0 \<and> v_done (h2 ! r) = 0 \<and>
                  mpi_live (g2 ! r) = mpi_live (g ! r) \<and> mpi_live (h2 ! r) = mpi_live (h ! r) \<and>
                  v_h (g2 ! r) = v_h (h2 ! r) \<and> v_sum (g2 ! r) = v_sum (h2 ! r) \<and>
                  v_i (g2 ! r) = v_i (h2 ! r) \<and> v_mypi (g2 ! r) = v_mypi (h2 ! r) \<and>
                  v_t0 (g2 ! r) = fst (clk r) \<and> v_t1 (g2 ! r) = snd (clk r) \<and>
                  v_t0 (h2 ! r) = fst (clk' r) \<and> v_t1 (h2 ! r) = snd (clk' r) \<and>
                  (0 < r \<longrightarrow> v_pi (g2 ! r) = v_pi (g ! r) \<and> v_pi (h2 ! r) = v_pi (h ! r)) \<and>
                  (int r + 1 \<le> v \<longrightarrow> v_x (g2 ! r) = v_x (h2 ! r)) \<and>
                  (v < int r + 1 \<longrightarrow> v_x (g2 ! r) = v_x (g ! r) \<and> v_x (h2 ! r) = v_x (h ! r)))))"
proof (intro conjI allI impI)
  show "map_sum id (\<lambda>u. (v_h u, v_sum u, v_i u, v_mypi u)) (integrate rnd st) =
       map_sum id (\<lambda>u. (v_h u, v_sum u, v_i u, v_mypi u)) (integrate rnd st')"
    by (rule integrate_deterministic_state [OF assms(1-4)])
next
  fix u assume u: "integrate rnd st = Inr u"
  show "u = st\<lparr>v_h := v_h u, v_sum := v_sum u, v_x := v_x u, v_i := v_i u, v_mypi := v_mypi u\<rparr>"
    by (rule integrate_frame [OF assms(1) u])
  show "ddiv rnd 1 (int_to_double rnd (v_n st)) = Inr (v_h u)"
    "v_sum u = kernel_sum rnd (v_h u) 0 (strided (v_myid st + 1) (v_n st) (v_numprocs st))"
    "v_mypi u = dmul rnd (v_h u) (v_sum u)"
    by (rule integrate_reinitialised [OF assms(1) u])+
  {
    assume "v_n st < v_myid st + 1"
    then show "v_x u = v_x st" using integrate_x [OF assms(1) u] by simp
  }
  {
    fix u' assume "integrate rnd st' = Inr u'" "v_myid st + 1 \<le> v_n st"
    then show "v_x u = v_x u'"
      by (intro integrate_deterministic_x [OF assms(1-4) u])
  }
next
  fix e
  show "main rnd p junk (ins @ [(v, clk, sch)]) = Inl e \<longleftrightarrow>
          main rnd p junk' (ins' @ [(v, clk', sch')]) = Inl e"
    using main_round_independent(1) [OF assms(5,6,7)] main_round_independent(1) [OF assms(5,7,6)]
    by blast
next
  fix c g2 out2
  assume "main rnd p junk (ins @ [(v, clk, sch)]) = Inr (Exited c g2 out2)"
  then show "\<exists>h2. main rnd p junk' (ins' @ [(v, clk', sch')]) = Inr (Exited c h2 out') \<and> out2 = out"
    by (rule main_round_independent(2) [OF assms(5,6,7)])
next
  fix g2 out2
  assume "main rnd p junk (ins @ [(v, clk, sch)]) = Inr (AwaitingInput g2 out2)"
  then show "\<exists>h2. main rnd p junk' (ins' @ [(v, clk', sch')]) =
               Inr (AwaitingInput h2
                 (out' @ [Report (dsub rnd (snd (clk' 0)) (fst (clk' 0))) (v_pi (h2 ! 0))
                            (fabs (dsub rnd (v_pi (h2 ! 0)) M_PI))])) \<and>
             out2 = out @ [Report (dsub rnd (snd (clk 0)) (fst (clk 0))) (v_pi (g2 ! 0))
                             (fabs (dsub rnd (v_pi (g2 ! 0)) M_PI))] \<and>
             length g2 = p \<and> length h2 = p \<and>
             v_pi (g2 ! 0) = reduce_sum rnd sch (map v_mypi g2) \<and>
             v_pi (h2 ! 0) = reduce_sum rnd sch' (map v_mypi h2) \<and>
             (sch = sch' \<longrightarrow> v_pi (g2 ! 0) = v_pi (h2 ! 0)) \<and>
             (\<forall>r < p.
                v_myid (g2 ! r) = int r \<and> v_myid (h2 ! r) = int r \<and>
                v_numprocs (g2 ! r) = int p \<and> v_numprocs (h2 ! r) = int p \<and>
                v_n (g2 ! r) = v \<and> v_n (h2 ! r) = v \<and>
                v_done (g2 ! r) = 0 \<and> v_done (h2 ! r) = 0 \<and>
                mpi_live (g2 ! r) = mpi_live (g ! r) \<and> mpi_live (h2 ! r) = mpi_live (h ! r) \<and>
                v_h (g2 ! r) = v_h (h2 ! r) \<and> v_sum (g2 ! r) = v_sum (h2 ! r) \<and>
                v_i (g2 ! r) = v_i (h2 ! r) \<and> v_mypi (g2 ! r) = v_mypi (h2 ! r) \<and>
                v_t0 (g2 ! r) = fst (clk r) \<and> v_t1 (g2 ! r) = snd (clk r) \<and>
                v_t0 (h2 ! r) = fst (clk' r) \<and> v_t1 (h2 ! r) = snd (clk' r) \<and>
                (0 < r \<longrightarrow> v_pi (g2 ! r) = v_pi (g ! r) \<and> v_pi (h2 ! r) = v_pi (h ! r)) \<and>
                (int r + 1 \<le> v \<longrightarrow> v_x (g2 ! r) = v_x (h2 ! r)) \<and>
                (v < int r + 1 \<longrightarrow> v_x (g2 ! r) = v_x (g ! r) \<and> v_x (h2 ! r) = v_x (h ! r)))"
    by (rule main_round_independent(3) [OF assms(5,6,7)])
qed

text \<open>
  The theorem for binary64: for the step, two states with \<open>n = 4\<close>, rank 0 of two, a blank
  one and one with values left in \<^verbatim>\<open>h\<close>, \<^verbatim>\<open>sum\<close>, \<^verbatim>\<open>x\<close>, \<^verbatim>\<open>i\<close> and \<^verbatim>\<open>mypi\<close>; for the
  round, a fresh run of two processes with blank memory and a run with other initial
  values that has played a round with \<open>n = 3\<close>, both reading \<open>n = 1\<close>, so that rank 1 is
  idle, with different clocks and schedules.
\<close>

theorem partial_result_depends_on_triple_only_witness:
  "0 < v_numprocs (blank\<lparr>v_n := 4, v_numprocs := 2\<rparr>) \<and>
   v_n (blank\<lparr>v_n := 4, v_numprocs := 2\<rparr>)
     = v_n (blank\<lparr>v_n := 4, v_numprocs := 2, v_i := 9, v_mypi := 3, v_h := 7, v_sum := 99, v_x := 1\<rparr>) \<and>
   v_myid (blank\<lparr>v_n := 4, v_numprocs := 2\<rparr>)
     = v_myid (blank\<lparr>v_n := 4, v_numprocs := 2, v_i := 9, v_mypi := 3, v_h := 7, v_sum := 99, v_x := 1\<rparr>) \<and>
   v_numprocs (blank\<lparr>v_n := 4, v_numprocs := 2\<rparr>)
     = v_numprocs (blank\<lparr>v_n := 4, v_numprocs := 2, v_i := 9, v_mypi := 3, v_h := 7, v_sum := 99, v_x := 1\<rparr>) \<and>
   (1::nat) \<le> 2 \<and>
   main binary64 2 (\<lambda>r. blank) [] = Inr (AwaitingInput (startup 2 (\<lambda>r. blank)) []) \<and>
   map_sum id (\<lambda>u. (v_h u, v_sum u, v_i u, v_mypi u))
       (integrate binary64 (blank\<lparr>v_n := 4, v_numprocs := 2\<rparr>)) =
     map_sum id (\<lambda>u. (v_h u, v_sum u, v_i u, v_mypi u))
       (integrate binary64
          (blank\<lparr>v_n := 4, v_numprocs := 2, v_i := 9, v_mypi := 3, v_h := 7, v_sum := 99, v_x := 1\<rparr>)) \<and>
   (\<exists>h out' g2 h2 rep rep'.
      main binary64 2 (\<lambda>r. blank\<lparr>v_h := 7, v_sum := 99, v_x := 1, v_pi := 5\<rparr>)
        [(3, \<lambda>r. (0, 1), Combine (Rank 0) (Rank 1))] = Inr (AwaitingInput h out') \<and>
      main binary64 2 (\<lambda>r. blank) ([] @ [(1, \<lambda>r. (2, 3), Combine (Rank 1) (Rank 0))]) =
        Inr (AwaitingInput g2 ([] @ [rep])) \<and>
      main binary64 2 (\<lambda>r. blank\<lparr>v_h := 7, v_sum := 99, v_x := 1, v_pi := 5\<rparr>)
        ([(3, \<lambda>r. (0, 1), Combine (Rank 0) (Rank 1))] @
           [(1, \<lambda>r. (5, 8), Combine (Rank 0) (Rank 1))]) =
        Inr (AwaitingInput h2 (out' @ [rep'])) \<and>
      v_h (g2 ! 0) = v_h (h2 ! 0) \<and> v_sum (g2 ! 0) = v_sum (h2 ! 0) \<and>
      v_i (g2 ! 0) = v_i (h2 ! 0) \<and> v_mypi (g2 ! 0) = v_mypi (h2 ! 0) \<and>
      v_x (g2 ! 0) = v_x (h2 ! 0) \<and>
      v_h (g2 ! 1) = v_h (h2 ! 1) \<and> v_sum (g2 ! 1) = v_sum (h2 ! 1) \<and>
      v_i (g2 ! 1) = v_i (h2 ! 1) \<and> v_mypi (g2 ! 1) = v_mypi (h2 ! 1) \<and>
      v_x (h2 ! 1) = v_x (h ! 1) \<and> v_pi (h2 ! 1) = v_pi (h ! 1) \<and>
      v_t0 (g2 ! 0) = 2 \<and> v_t1 (g2 ! 0) = 3 \<and> v_t0 (h2 ! 0) = 5 \<and> v_t1 (h2 ! 0) = 8)"
proof -
  let ?st = "blank\<lparr>v_n := 4, v_numprocs := 2\<rparr>"
  let ?st' = "blank\<lparr>v_n := 4, v_numprocs := 2, v_i := 9, v_mypi := 3, v_h := 7, v_sum := 99, v_x := 1\<rparr>"
  let ?junk = "\<lambda>r :: nat. blank\<lparr>v_h := 7, v_sum := 99, v_x := 1, v_pi := 5\<rparr>"
  let ?a = "(3 :: int, \<lambda>r :: nat. (0 :: rat, 1 :: rat), Combine (Rank 0) (Rank 1))"
  let ?b = "(1 :: int, \<lambda>r :: nat. (2 :: rat, 3 :: rat), Combine (Rank 1) (Rank 0))"
  let ?c = "(1 :: int, \<lambda>r :: nat. (5 :: rat, 8 :: rat), Combine (Rank 0) (Rank 1))"
  have s: "0 < v_numprocs ?st" "v_n ?st = v_n ?st'" "v_myid ?st = v_myid ?st'"
    "v_numprocs ?st = v_numprocs ?st'" "(1::nat) \<le> 2"
    by simp_all
  have m: "main binary64 2 (\<lambda>r. blank) [] = Inr (AwaitingInput (startup 2 (\<lambda>r. blank)) [])"
    by (rule main_start)
  from main_round_closed [where p = 2 and n = 3 and junk = ?junk and ins = "[]"
      and clk = "\<lambda>r. (0, 1)" and sch = "Combine (Rank 0) (Rank 1)",
      OF sign_preserving_binary64 _ _ _ _ main_start]
  obtain h rep0 where
    h: "main binary64 2 ?junk ([] @ [?a]) = Inr (AwaitingInput h ([] @ [rep0]))"
    by (auto simp: INT_MAX_def)
  from main_round_closed [where n = 1 and clk = "\<lambda>r. (2, 3)"
      and sch = "Combine (Rank 1) (Rank 0)", OF sign_preserving_binary64 _ _ _ _ m]
  obtain g2 rep where
    g2: "main binary64 2 (\<lambda>r. blank) ([] @ [?b]) = Inr (AwaitingInput g2 ([] @ [rep]))"
    by (auto simp: INT_MAX_def)
  note t = partial_result_depends_on_triple_only [where v = 1
      and clk = "\<lambda>r. (2, 3)" and sch = "Combine (Rank 1) (Rank 0)"
      and clk' = "\<lambda>r. (5, 8)" and sch' = "Combine (Rank 0) (Rank 1)", OF s m h]
  note A = t [THEN conjunct1]
  note E0 = t [THEN conjunct2, THEN conjunct2, THEN conjunct2, THEN conjunct2, rule_format, OF g2]
  from E0 obtain h2 where
    E: "main binary64 2 ?junk (([] @ [?a]) @ [?c]) =
          Inr (AwaitingInput h2 (([] @ [rep0]) @
            [Report (dsub binary64 (snd (5 :: rat, 8 :: rat)) (fst (5 :: rat, 8 :: rat)))
               (v_pi (h2 ! 0)) (fabs (dsub binary64 (v_pi (h2 ! 0)) M_PI))]))"
    and R: "\<forall>r < 2.
        v_myid (g2 ! r) = int r \<and> v_myid (h2 ! r) = int r \<and>
        v_numprocs (g2 ! r) = int 2 \<and> v_numprocs (h2 ! r) = int 2 \<and>
        v_n (g2 ! r) = 1 \<and> v_n (h2 ! r) = 1 \<and>
        v_done (g2 ! r) = 0 \<and> v_done (h2 ! r) = 0 \<and>
        mpi_live (g2 ! r) = mpi_live ((startup 2 (\<lambda>r. blank)) ! r) \<and> mpi_live (h2 ! r) = mpi_live (h ! r) \<and>
        v_h (g2 ! r) = v_h (h2 ! r) \<and> v_sum (g2 ! r) = v_sum (h2 ! r) \<and>
        v_i (g2 ! r) = v_i (h2 ! r) \<and> v_mypi (g2 ! r) = v_mypi (h2 ! r) \<and>
        v_t0 (g2 ! r) = fst (2 :: rat, 3 :: rat) \<and> v_t1 (g2 ! r) = snd (2 :: rat, 3 :: rat) \<and>
        v_t0 (h2 ! r) = fst (5 :: rat, 8 :: rat) \<and> v_t1 (h2 ! r) = snd (5 :: rat, 8 :: rat) \<and>
        (0 < r \<longrightarrow> v_pi (g2 ! r) = v_pi (startup 2 (\<lambda>r. blank) ! r) \<and>
                 v_pi (h2 ! r) = v_pi (h ! r)) \<and>
        (int r + 1 \<le> 1 \<longrightarrow> v_x (g2 ! r) = v_x (h2 ! r)) \<and>
        (1 < int r + 1 \<longrightarrow> v_x (g2 ! r) = v_x (startup 2 (\<lambda>r. blank) ! r) \<and>
                 v_x (h2 ! r) = v_x (h ! r))"
    by (elim exE conjE)
  from R [rule_format, of 0] R [rule_format, of 1]
  have F: "v_h (g2 ! 0) = v_h (h2 ! 0)" "v_sum (g2 ! 0) = v_sum (h2 ! 0)"
      "v_i (g2 ! 0) = v_i (h2 ! 0)" "v_mypi (g2 ! 0) = v_mypi (h2 ! 0)"
      "v_x (g2 ! 0) = v_x (h2 ! 0)"
      "v_h (g2 ! 1) = v_h (h2 ! 1)" "v_sum (g2 ! 1) = v_sum (h2 ! 1)"
      "v_i (g2 ! 1) = v_i (h2 ! 1)" "v_mypi (g2 ! 1) = v_mypi (h2 ! 1)"
      "v_x (h2 ! 1) = v_x (h ! 1)" "v_pi (h2 ! 1) = v_pi (h ! 1)"
      "v_t0 (g2 ! 0) = 2" "v_t1 (g2 ! 0) = 3" "v_t0 (h2 ! 0) = 5" "v_t1 (h2 ! 0) = 8"
    by simp_all
  have "\<exists>h out' g2 h2 rep rep'.
      main binary64 2 ?junk [?a] = Inr (AwaitingInput h out') \<and>
      main binary64 2 (\<lambda>r. blank) ([] @ [?b]) = Inr (AwaitingInput g2 ([] @ [rep])) \<and>
      main binary64 2 ?junk ([?a] @ [?c]) = Inr (AwaitingInput h2 (out' @ [rep'])) \<and>
      v_h (g2 ! 0) = v_h (h2 ! 0) \<and> v_sum (g2 ! 0) = v_sum (h2 ! 0) \<and>
      v_i (g2 ! 0) = v_i (h2 ! 0) \<and> v_mypi (g2 ! 0) = v_mypi (h2 ! 0) \<and>
      v_x (g2 ! 0) = v_x (h2 ! 0) \<and>
      v_h (g2 ! 1) = v_h (h2 ! 1) \<and> v_sum (g2 ! 1) = v_sum (h2 ! 1) \<and>
      v_i (g2 ! 1) = v_i (h2 ! 1) \<and> v_mypi (g2 ! 1) = v_mypi (h2 ! 1) \<and>
      v_x (h2 ! 1) = v_x (h ! 1) \<and> v_pi (h2 ! 1) = v_pi (h ! 1) \<and>
      v_t0 (g2 ! 0) = 2 \<and> v_t1 (g2 ! 0) = 3 \<and> v_t0 (h2 ! 0) = 5 \<and> v_t1 (h2 ! 0) = 8"
  proof (intro exI conjI)
    show "main binary64 2 ?junk [?a] = Inr (AwaitingInput h [rep0])" using h by simp
    show "main binary64 2 (\<lambda>r. blank) ([] @ [?b]) = Inr (AwaitingInput g2 ([] @ [rep]))"
      by (rule g2)
    show "main binary64 2 ?junk ([?a] @ [?c]) =
          Inr (AwaitingInput h2 ([rep0] @
            [Report (dsub binary64 (snd (5 :: rat, 8 :: rat)) (fst (5 :: rat, 8 :: rat)))
               (v_pi (h2 ! 0)) (fabs (dsub binary64 (v_pi (h2 ! 0)) M_PI))]))"
      using E by simp
  qed (rule F)+
  with s m A show ?thesis by blast
qed

section \<open>Claims about the end of the program\<close>

text \<open>
  Claim C8. Take a run of a group of \<open>p \<ge> 1\<close> processes that has reached the prompt; up to
  here every rank holds its MPI context. When the coordinator reads 0, every rank reaches
  \<^verbatim>\<open>MPI_Finalize\<close>, which releases the context, and returns 0 from \<^verbatim>\<open>main\<close>. Whatever
  the inputs, a run that returns from \<^verbatim>\<open>main\<close> returns 0 on every rank, with the context
  released.
\<close>

theorem quit_finalizes_and_exits_zero:
  assumes "1 \<le> p" "main rnd p junk ins = Inr (AwaitingInput g out)"
  shows "(\<forall>st \<in> set g. mpi_live st) \<and>
         (\<exists>g'. main rnd p junk (ins @ [(0, clk, sch)]) = Inr (Exited (replicate p 0) g' out) \<and>
               length g' = p \<and> (\<forall>st \<in> set g'. \<not> mpi_live st)) \<and>
         (\<forall>ins' codes g' out'. main rnd p junk ins' = Inr (Exited codes g' out') \<longrightarrow>
               codes = replicate p 0 \<and> (\<forall>st \<in> set g'. \<not> mpi_live st))"
proof (intro conjI allI impI)
  show "\<forall>st \<in> set g. mpi_live st"
    using rounds_live [OF wf_startup [OF assms(1)] _ startup_live] assms(2)
    by (simp add: main_AwaitingInput)
  have "length g = p" by (rule main_reached(2) [OF assms])
  then have "main rnd p junk (ins @ [(0, clk, sch)]) =
           Inr (Exited (replicate p 0) (map (\<lambda>st. st\<lparr>v_n := 0, mpi_live := False\<rparr>) g) out) \<and>
        length (map (\<lambda>st. st\<lparr>v_n := 0, mpi_live := False\<rparr>) g) = p \<and>
        (\<forall>st \<in> set (map (\<lambda>st. st\<lparr>v_n := 0, mpi_live := False\<rparr>) g). \<not> mpi_live st)"
    using main_quit [OF assms, of clk sch "[]"] by simp
  then show "\<exists>g'. main rnd p junk (ins @ [(0, clk, sch)]) = Inr (Exited (replicate p 0) g' out) \<and>
               length g' = p \<and> (\<forall>st \<in> set g'. \<not> mpi_live st)" by blast
next
  fix ins' codes g' out'
  assume "main rnd p junk ins' = Inr (Exited codes g' out')"
  from main_exit_cases [OF assms(1) this]
  show "codes = replicate p 0" "\<forall>st \<in> set g'. \<not> mpi_live st" by auto
qed

text \<open>The theorem on two processes that read 0 in their first round.\<close>

theorem quit_finalizes_and_exits_zero_witness:
  "(1::nat) \<le> 2 \<and>
   main binary64 2 (\<lambda>r. blank) [] = Inr (AwaitingInput (startup 2 (\<lambda>r. blank)) []) \<and>
   (\<exists>g'. main binary64 2 (\<lambda>r. blank) ([] @ [(0, \<lambda>r. (0, 0), Combine (Rank 0) (Rank 1))]) =
           Inr (Exited (replicate 2 0) g' []) \<and>
         length g' = 2 \<and> (\<forall>st \<in> set g'. \<not> mpi_live st))"
proof -
  have h: "(1::nat) \<le> 2"
    "main binary64 2 (\<lambda>r. blank) [] = Inr (AwaitingInput (startup 2 (\<lambda>r. blank)) [])"
    by (simp_all add: main_start)
  from quit_finalizes_and_exits_zero [OF h, of "\<lambda>r. (0, 0)"] h
  show ?thesis by blast
qed

section \<open>Claims about the timer\<close>

text \<open>
  Claim C9. Take a run of a group of \<open>p \<ge> 1\<close> processes that has reached the prompt and
  completes one more round. If the second reading of the coordinator's clock is not
  before the first, the round prints exactly one report, and the elapsed time in it, the
  rounded difference of the two readings, is not negative. This holds for every rounding
  that preserves signs.
\<close>

theorem elapsed_nonnegative:
  assumes "sign_preserving rnd" "1 \<le> p"
    and "main rnd p junk ins = Inr (AwaitingInput g out)"
    and "main rnd p junk (ins @ [(v, clk, sch)]) = Inr (AwaitingInput g' out')"
    and "fst (clk 0) \<le> snd (clk 0)"
  shows "\<exists>rep. out' = out @ [rep] \<and> elapsed rep = dsub rnd (snd (clk 0)) (fst (clk 0)) \<and>
               0 \<le> elapsed rep"
proof -
  note r = main_reached [OF assms(2,3)]
  from assms(4) obtain new where o: "one_round rnd v clk sch g = Inr (False, g', new)"
    and out': "out' = out @ new"
    by (auto simp: main_snoc_last [OF assms(2,3)] split: sum.splits bool.splits)
  have v: "v \<noteq> 0" using one_round_wf(3) [OF r(1) o] by simp
  note c = one_round_continue [OF r(1) v o]
  have "0 \<le> dsub rnd (snd (clk 0)) (fst (clk 0))"
    unfolding dsub_def by (rule sign_preserving_nonneg [OF assms(1)]) (simp add: assms(5))
  with c(4) out' show ?thesis by simp
qed

text \<open>
  The theorem in exact arithmetic for one process and \<open>n = 1\<close>, with the clock readings 1
  and 3.
\<close>

theorem elapsed_nonnegative_witness:
  "sign_preserving exact \<and> (1::nat) \<le> 1 \<and>
   main exact 1 (\<lambda>r. blank) [] = Inr (AwaitingInput (startup 1 (\<lambda>r. blank)) []) \<and>
   main exact 1 (\<lambda>r. blank) ([] @ [(1, \<lambda>r. (1, 3), Rank 0)]) =
     Inr (AwaitingInput
       [\<lparr>v_done = 0, v_n = 1, v_myid = 0, v_numprocs = 1, v_i = 2, v_mypi = 16 / 5,
           v_pi = 16 / 5, v_h = 1, v_sum = 16 / 5, v_x = 1 / 2, v_t0 = 1, v_t1 = 3,
           mpi_live = True\<rparr>]
       [Report 2 (16 / 5) (82201032352721 / 1407374883553280)]) \<and>
   fst ((\<lambda>r :: nat. (1 :: rat, 3 :: rat)) 0) \<le> snd ((\<lambda>r :: nat. (1 :: rat, 3 :: rat)) 0) \<and>
   (\<exists>rep. [Report 2 (16 / 5) (82201032352721 / 1407374883553280)] = [] @ [rep] \<and>
          elapsed rep = dsub exact (snd ((\<lambda>r :: nat. (1 :: rat, 3 :: rat)) 0))
                                   (fst ((\<lambda>r :: nat. (1 :: rat, 3 :: rat)) 0)) \<and>
          0 \<le> elapsed rep)"
proof -
  have h: "(1::nat) \<le> 1"
    "main exact 1 (\<lambda>r. blank) [] = Inr (AwaitingInput (startup 1 (\<lambda>r. blank)) [])"
    by (simp_all add: main_start)
  have r: "main exact 1 (\<lambda>r. blank) ([] @ [(1, \<lambda>r. (1, 3), Rank 0)]) =
     Inr (AwaitingInput
       [\<lparr>v_done = 0, v_n = 1, v_myid = 0, v_numprocs = 1, v_i = 2, v_mypi = 16 / 5,
           v_pi = 16 / 5, v_h = 1, v_sum = 16 / 5, v_x = 1 / 2, v_t0 = 1, v_t1 = 3,
           mpi_live = True\<rparr>]
       [Report 2 (16 / 5) (82201032352721 / 1407374883553280)])"
    by code_simp
  have c: "fst ((\<lambda>r :: nat. (1 :: rat, 3 :: rat)) 0) \<le> snd ((\<lambda>r :: nat. (1 :: rat, 3 :: rat)) 0)"
    by simp
  from elapsed_nonnegative [OF sign_preserving_exact h r c] h r c sign_preserving_exact
  show ?thesis by blast
qed

section \<open>Claims about the division by \<open>n\<close>\<close>

text \<open>
  Claim C10. The division \<open>1.0 / n\<close> of line 24 has the divisor zero exactly when \<open>n\<close> is
  0, and no run of the program ever divides by zero, whatever the group size, the initial
  memory and the inputs: the integration step is reached only in rounds whose broadcast
  value is not 0. This holds for every rounding that preserves signs.
\<close>

theorem step_width_division_safe:
  assumes "sign_preserving rnd"
  shows "main rnd p junk ins \<noteq> Inl DivisionByZero \<and>
         (ddiv rnd 1 (int_to_double rnd n) = Inl DivisionByZero \<longleftrightarrow> n = 0)"
proof
  show "main rnd p junk ins \<noteq> Inl DivisionByZero"
    using main_error_kind(2) [OF _ assms, of p junk ins DivisionByZero] by auto
  show "ddiv rnd 1 (int_to_double rnd n) = Inl DivisionByZero \<longleftrightarrow> n = 0"
  proof (cases "n = 0")
    case True
    then show ?thesis
      by (simp add: ddiv_def int_to_double_def sign_preservingD(1) [OF assms])
  next
    case False
    then show ?thesis by (simp add: step_width_division [OF assms])
  qed
qed

text \<open>The theorem for binary64 on two processes that read 3 and then 0.\<close>

theorem step_width_division_safe_witness:
  "sign_preserving binary64 \<and>
   main binary64 2 (\<lambda>r. blank)
     [(3, \<lambda>r. (0, 1), Combine (Rank 0) (Rank 1)), (0, \<lambda>r. (0, 0), Combine (Rank 0) (Rank 1))]
     \<noteq> Inl DivisionByZero \<and>
   (ddiv binary64 1 (int_to_double binary64 3) = Inl DivisionByZero) = ((3::int) = 0)"
  using step_width_division_safe [OF sign_preserving_binary64,
      of 2 "\<lambda>r. blank"
      "[(3, \<lambda>r. (0, 1), Combine (Rank 0) (Rank 1)), (0, \<lambda>r. (0, 0), Combine (Rank 0) (Rank 1))]" 3]
    sign_preserving_binary64
  by blast

end
